theory Spec2Isabelle
  imports Complex_Main
begin

section \<open>Python values used by the graph store and the PageRank engine\<close>

text \<open>
  Python floats are modelled by exact reals: every statement below is about the
  arithmetic the code writes down, not about IEEE rounding.  A Python \<open>dict\<close> keeps its
  keys in insertion order and that order is observable (node indices, the order of the
  lines written by \<open>save_to_file\<close>), so a dict is an association list with distinct keys.
\<close>

datatype py_error = KeyError | ValueError | AttributeError | IndexError | ZeroDivisionError

type_synonym ('k, 'v) dict = "('k \<times> 'v) list"

definition dict_keys :: "('k, 'v) dict \<Rightarrow> 'k list" where
  "dict_keys d = map fst d"

definition dict_contains :: "('k, 'v) dict \<Rightarrow> 'k \<Rightarrow> bool" where
  "dict_contains d k = (k \<in> set (dict_keys d))"

text \<open>\<open>d[k] = v\<close>: an existing key keeps its position, a new key goes to the end.\<close>

fun dict_set :: "('k, 'v) dict \<Rightarrow> 'k \<Rightarrow> 'v \<Rightarrow> ('k, 'v) dict" where
  "dict_set [] k v = [(k, v)]"
| "dict_set ((k', v') # d) k v = (if k' = k then (k, v) # d else (k', v') # dict_set d k v)"

text \<open>\<open>del d[k]\<close> on a key that is present (the callers test presence first).\<close>

fun dict_del :: "('k, 'v) dict \<Rightarrow> 'k \<Rightarrow> ('k, 'v) dict" where
  "dict_del [] k = []"
| "dict_del ((k', v') # d) k = (if k' = k then d else (k', v') # dict_del d k)"

text \<open>\<open>d.get(k, {})\<close> for a dict of dicts.\<close>

definition dict_get_or_empty :: "('k, ('j, 'v) dict) dict \<Rightarrow> 'k \<Rightarrow> ('j, 'v) dict" where
  "dict_get_or_empty d k = (case map_of d k of None \<Rightarrow> [] | Some nb \<Rightarrow> nb)"

section \<open>The graph store (infrastructure/graph.py, class SparseGraph)\<close>

type_synonym node_id = string

record sparse_graph =
  directed :: bool
  adjacency_list :: "(node_id, (node_id, real) dict) dict"
  node_to_idx :: "(node_id, nat) dict"
  idx_to_node :: "(nat, node_id) dict"
  edge_count :: int

definition new_graph :: "bool \<Rightarrow> sparse_graph" where
  "new_graph d = \<lparr>directed = d, adjacency_list = [], node_to_idx = [], idx_to_node = [],
     edge_count = 0\<rparr>"

definition add_node :: "sparse_graph \<Rightarrow> node_id \<Rightarrow> sparse_graph" where
  "add_node g n =
     (if \<not> dict_contains (adjacency_list g) n then
        (let idx = length (adjacency_list g) in
         g\<lparr>adjacency_list := dict_set (adjacency_list g) n [],
           node_to_idx := dict_set (node_to_idx g) n idx,
           idx_to_node := dict_set (idx_to_node g) idx n\<rparr>)
      else g)"

text \<open>
  \<open>add_edge\<close> reads \<open>self._adjacency_list[source]\<close> and \<open>[target]\<close> right after adding both
  nodes, so these subscripts cannot raise; \<open>dict_get_or_empty\<close> stands for them
  (lemma \<open>add_node_contains\<close> below shows that the key is present).
\<close>

definition add_edge :: "sparse_graph \<Rightarrow> node_id \<Rightarrow> node_id \<Rightarrow> real \<Rightarrow> sparse_graph" where
  "add_edge g source target weight =
     (let g1 = add_node (add_node g source) target;
          nb = dict_get_or_empty (adjacency_list g1) source;
          g2 = (if \<not> dict_contains nb target
                then g1\<lparr>edge_count := edge_count g1 + 1\<rparr> else g1);
          g3 = g2\<lparr>adjacency_list :=
                    dict_set (adjacency_list g2) source (dict_set nb target weight)\<rparr>
      in if \<not> directed g3 \<and> source \<noteq> target then
           (let nb' = dict_get_or_empty (adjacency_list g3) target;
                g4 = (if \<not> dict_contains nb' source
                      then g3\<lparr>edge_count := edge_count g3 + 1\<rparr> else g3)
            in g4\<lparr>adjacency_list :=
                    dict_set (adjacency_list g4) target (dict_set nb' source weight)\<rparr>)
         else g3)"

text \<open>
  \<open>remove_edge\<close> returns the success flag and the updated graph.  The reverse deletion
  \<open>del self._adjacency_list[target][source]\<close> is not guarded in the source: it raises
  \<open>KeyError\<close> when the mirrored entry is missing.
\<close>

definition remove_edge :: "sparse_graph \<Rightarrow> node_id \<Rightarrow> node_id \<Rightarrow> py_error + (bool \<times> sparse_graph)" where
  "remove_edge g source target =
     (if dict_contains (adjacency_list g) source
         \<and> dict_contains (dict_get_or_empty (adjacency_list g) source) target then
        (let nb = dict_get_or_empty (adjacency_list g) source;
             g1 = g\<lparr>adjacency_list := dict_set (adjacency_list g) source (dict_del nb target),
                    edge_count := edge_count g - 1\<rparr>
         in if \<not> directed g1 \<and> source \<noteq> target then
              (case map_of (adjacency_list g1) target of
                 None \<Rightarrow> Inl KeyError
               | Some nb' \<Rightarrow>
                   if dict_contains nb' source then
                     Inr (True, g1\<lparr>adjacency_list :=
                                    dict_set (adjacency_list g1) target (dict_del nb' source),
                                  edge_count := edge_count g1 - 1\<rparr>)
                   else Inl KeyError)
            else Inr (True, g1))
      else Inr (False, g))"

definition get_nodes :: "sparse_graph \<Rightarrow> node_id list" where
  "get_nodes g = dict_keys (adjacency_list g)"

definition get_edges :: "sparse_graph \<Rightarrow> (node_id \<times> node_id \<times> real) list" where
  "get_edges g =
     concat (map (\<lambda>(source, nb). map (\<lambda>(target, weight). (source, target, weight)) nb)
                 (adjacency_list g))"

subsection \<open>Sequences of mutations\<close>

datatype graph_op = AddNode node_id | AddEdge node_id node_id real | RemoveEdge node_id node_id

fun apply_op :: "sparse_graph \<Rightarrow> graph_op \<Rightarrow> py_error + sparse_graph" where
  "apply_op g (AddNode n) = Inr (add_node g n)"
| "apply_op g (AddEdge s t w) = Inr (add_edge g s t w)"
| "apply_op g (RemoveEdge s t) =
     (case remove_edge g s t of Inl e \<Rightarrow> Inl e | Inr (ok, g') \<Rightarrow> Inr g')"

fun apply_ops :: "sparse_graph \<Rightarrow> graph_op list \<Rightarrow> py_error + sparse_graph" where
  "apply_ops g [] = Inr g"
| "apply_ops g (x # xs) =
     (case apply_op g x of Inl e \<Rightarrow> Inl e | Inr g' \<Rightarrow> apply_ops g' xs)"

text \<open>The number of stored (source, target) pairs.\<close>

definition stored_pairs :: "sparse_graph \<Rightarrow> nat" where
  "stored_pairs g = length (get_edges g)"

text \<open>The weight stored for a pair, if any: \<open>self._adjacency_list[s][t]\<close>.\<close>

definition edge_weight :: "sparse_graph \<Rightarrow> node_id \<Rightarrow> node_id \<Rightarrow> real option" where
  "edge_weight g s t = map_of (dict_get_or_empty (adjacency_list g) s) t"

subsection \<open>Invariants of the graph store\<close>

text \<open>
  The state invariant: keys are distinct at both levels (the lists are dicts), the counter
  equals the number of stored pairs, and an undirected graph stores every edge in both
  directions with the same weight.
\<close>

definition graph_inv :: "sparse_graph \<Rightarrow> bool" where
  "graph_inv g =
     (distinct (dict_keys (adjacency_list g))
      \<and> (\<forall>nb \<in> snd ` set (adjacency_list g). distinct (dict_keys nb))
      \<and> edge_count g = int (stored_pairs g)
      \<and> (\<not> directed g \<longrightarrow> (\<forall>s t. edge_weight g s t = edge_weight g t s)))"

text \<open>The number of stored pairs, counted per source node.\<close>

definition pairs :: "(node_id, (node_id, real) dict) dict \<Rightarrow> nat" where
  "pairs adj = sum_list (map (\<lambda>p. length (snd p)) adj)"

text \<open>
  One direction of \<open>add_edge\<close>: the block that counts and stores the pair, which the
  source runs for (source, target) and, when mirroring, for (target, source).
\<close>

definition put_edge :: "sparse_graph \<Rightarrow> node_id \<Rightarrow> node_id \<Rightarrow> real \<Rightarrow> sparse_graph" where
  "put_edge g s t w =
     (let nb = dict_get_or_empty (adjacency_list g) s;
          g2 = (if \<not> dict_contains nb t then g\<lparr>edge_count := edge_count g + 1\<rparr> else g)
      in g2\<lparr>adjacency_list := dict_set (adjacency_list g2) s (dict_set nb t w)\<rparr>)"

text \<open>The part of the invariant that does not mention symmetry.\<close>

definition store_inv :: "sparse_graph \<Rightarrow> bool" where
  "store_inv g =
     (distinct (dict_keys (adjacency_list g))
      \<and> (\<forall>nb \<in> snd ` set (adjacency_list g). distinct (dict_keys nb))
      \<and> edge_count g = int (stored_pairs g))"

text \<open>One direction of \<open>remove_edge\<close>: delete the pair and decrement the counter.\<close>

definition drop_edge :: "sparse_graph \<Rightarrow> node_id \<Rightarrow> node_id \<Rightarrow> sparse_graph" where
  "drop_edge g s t =
     g\<lparr>adjacency_list :=
         dict_set (adjacency_list g) s (dict_del (dict_get_or_empty (adjacency_list g) s) t),
       edge_count := edge_count g - 1\<rparr>"

section \<open>Arrays (numpy vectors and matrices)\<close>

text \<open>
  A one-dimensional array is a list of reals and a two-dimensional array is the list of
  its rows.  The functions of this development are applied to the shapes the source
  documents (an \<open>n \<times> n\<close> matrix, vectors of length \<open>n\<close>); broadcasting of other shapes
  is not modelled except where the source relies on it.  A sparse matrix is modelled by
  the dense matrix with the same entries: the storage format does not change what
  \<open>multiply\<close>, \<open>sum(axis=0)\<close> and column slicing return.
\<close>

type_synonym vector = "real list"
type_synonym matrix = "real list list"

definition zeros :: "nat \<Rightarrow> vector" where
  "zeros n = replicate n 0"

text \<open>\<open>np.ones(n) / n\<close>; for \<open>n = 0\<close> numpy returns the empty array.\<close>

definition ones_over_n :: "nat \<Rightarrow> vector" where
  "ones_over_n n = replicate n (1 / real n)"

definition vec_add :: "vector \<Rightarrow> vector \<Rightarrow> vector" where
  "vec_add u v = map2 (+) u v"

definition vec_sub :: "vector \<Rightarrow> vector \<Rightarrow> vector" where
  "vec_sub u v = map2 (-) u v"

definition scale :: "real \<Rightarrow> vector \<Rightarrow> vector" where
  "scale c v = map ((*) c) v"

definition vec_div :: "vector \<Rightarrow> real \<Rightarrow> vector" where
  "vec_div v c = map (\<lambda>x. x / c) v"

text \<open>\<open>np.linalg.norm(v, ord=1)\<close>\<close>

definition norm1 :: "vector \<Rightarrow> real" where
  "norm1 v = sum_list (map abs v)"

text \<open>\<open>M @ v\<close>\<close>

definition mat_vec :: "matrix \<Rightarrow> vector \<Rightarrow> vector" where
  "mat_vec M v = map (\<lambda>row. sum_list (map2 (*) row v)) M"

definition ncols :: "matrix \<Rightarrow> nat" where
  "ncols M = (case M of [] \<Rightarrow> 0 | row # _ \<Rightarrow> length row)"

text \<open>\<open>M[:, j]\<close>\<close>

definition column :: "matrix \<Rightarrow> nat \<Rightarrow> vector" where
  "column M j = map (\<lambda>row. row ! j) M"

text \<open>\<open>M.sum(axis=0)\<close>: the sum of each column.\<close>

definition col_sums :: "matrix \<Rightarrow> vector" where
  "col_sums M = map (\<lambda>j. sum_list (column M j)) [0..<ncols M]"

text \<open>Element-wise product \<open>A * B\<close> of two arrays of the same shape.\<close>

definition elementwise :: "matrix \<Rightarrow> matrix \<Rightarrow> matrix" where
  "elementwise A B = map2 (map2 (*)) A B"

text \<open>\<open>np.where(mask)[0]\<close>: the indices at which a boolean array is true, ascending.\<close>

definition where_true :: "bool list \<Rightarrow> nat list" where
  "where_true flags = filter (\<lambda>i. flags ! i) [0..<length flags]"

text \<open>\<open>v[mask]\<close>: the entries of \<open>v\<close> selected by a boolean array.\<close>

definition masked :: "vector \<Rightarrow> bool list \<Rightarrow> vector" where
  "masked v flags = map fst (filter snd (zip v flags))"

text \<open>\<open>np.any(mask)\<close>\<close>

definition np_any :: "bool list \<Rightarrow> bool" where
  "np_any flags = (True \<in> set flags)"

text \<open>
  Truth value of an optional dict argument: \<open>None\<close> and the empty dict are both false.
\<close>

definition truthy :: "('k, 'v) dict option \<Rightarrow> bool" where
  "truthy d = (case d of None \<Rightarrow> False | Some xs \<Rightarrow> xs \<noteq> [])"

definition items :: "('k, 'v) dict option \<Rightarrow> ('k \<times> 'v) list" where
  "items d = (case d of None \<Rightarrow> [] | Some xs \<Rightarrow> xs)"

text \<open>\<open>{k: v for k, v in pairs}\<close> and \<open>dict(zip(ks, vs))\<close>: later pairs overwrite earlier ones.\<close>

definition dict_of_pairs :: "('k \<times> 'v) list \<Rightarrow> ('k, 'v) dict" where
  "dict_of_pairs ps = fold (\<lambda>(k, v) d. dict_set d k v) ps []"

section \<open>Strategies (domain/strategies.py)\<close>

datatype dangling_strategy =
    UniformDanglingStrategy
  | TeleportDanglingStrategy "vector option"

text \<open>
  The constructor of \<open>SuspicionBasedPersonalization\<close> stores \<open>max(1.0, suspicion_weight)\<close>;
  the datatype carries the stored value.
\<close>

datatype personalization_strategy =
    SuspicionBasedPersonalization real
  | TransactionVolumePersonalization

definition new_suspicion_based :: "real \<Rightarrow> personalization_strategy" where
  "new_suspicion_based suspicion_weight = SuspicionBasedPersonalization (max 1 suspicion_weight)"

text \<open>
  \<open>adjusted_matrix[i, :] = value\<close> for a row index \<open>i\<close>.  An index beyond the last row
  raises \<open>IndexError\<close>; a one-dimensional value must have the length of the row or
  length one (numpy broadcasting), otherwise numpy raises \<open>ValueError\<close>.
\<close>

definition assign_row :: "matrix \<Rightarrow> nat \<Rightarrow> vector \<Rightarrow> py_error + matrix" where
  "assign_row M i v =
     (if length M \<le> i then Inl IndexError
      else if length v = length (M ! i) then Inr (M[i := v])
      else if length v = 1 then Inr (M[i := map (\<lambda>_. hd v) (M ! i)])
      else Inl ValueError)"

fun assign_rows :: "matrix \<Rightarrow> nat list \<Rightarrow> vector \<Rightarrow> py_error + matrix" where
  "assign_rows M [] v = Inr M"
| "assign_rows M (i # is) v =
     (case assign_row M i v of Inl e \<Rightarrow> Inl e | Inr M' \<Rightarrow> assign_rows M' is v)"

text \<open>
  \<open>handle_dangling_nodes\<close> of both strategies.  The uniform strategy assigns the scalar
  \<open>1.0 / n\<close> (a division of Python numbers: it raises for \<open>n = 0\<close>, but only once the loop
  body runs); the teleport strategy assigns its personalization vector, or
  \<open>np.ones(n) / n\<close> when it has none.  Here \<open>n\<close> is the number of rows.
\<close>

fun handle_dangling_nodes :: "dangling_strategy \<Rightarrow> matrix \<Rightarrow> bool list \<Rightarrow> py_error + matrix" where
  "handle_dangling_nodes UniformDanglingStrategy transition_matrix dangling_mask =
     (let n = length transition_matrix in
      if where_true dangling_mask = [] then Inr transition_matrix
      else if n = 0 then Inl ZeroDivisionError
      else assign_rows transition_matrix (where_true dangling_mask) [1 / real n])"
| "handle_dangling_nodes (TeleportDanglingStrategy pv) transition_matrix dangling_mask =
     (let n = length transition_matrix;
          personalization = (case pv of None \<Rightarrow> ones_over_n n | Some v \<Rightarrow> v)
      in assign_rows transition_matrix (where_true dangling_mask) personalization)"

text \<open>\<open>{node_id: i for i, node_id in enumerate(node_ids)}\<close>\<close>

definition index_dict :: "node_id list \<Rightarrow> (node_id, nat) dict" where
  "index_dict node_ids = dict_of_pairs (zip node_ids [0..<length node_ids])"

text \<open>
  The loops over \<open>base_weights.items()\<close> and \<open>suspicious_nodes.items()\<close>.  Every index
  stored in \<open>index_dict node_ids\<close> is below \<open>n\<close>, so the subscripts cannot raise.
\<close>

fun apply_base_weights :: "(node_id, nat) dict \<Rightarrow> (node_id \<times> real) list \<Rightarrow> vector \<Rightarrow> vector" where
  "apply_base_weights idx_of [] personalization = personalization"
| "apply_base_weights idx_of ((node_id, weight) # rest) personalization =
     apply_base_weights idx_of rest
       (case map_of idx_of node_id of
          None \<Rightarrow> personalization
        | Some idx \<Rightarrow> personalization[idx := weight])"

fun boost_suspicious :: "real \<Rightarrow> (node_id, nat) dict \<Rightarrow> (node_id \<times> real) list \<Rightarrow> vector \<Rightarrow> vector" where
  "boost_suspicious suspicion_weight idx_of [] personalization = personalization"
| "boost_suspicious suspicion_weight idx_of ((node_id, suspicion_score) # rest) personalization =
     boost_suspicious suspicion_weight idx_of rest
       (case map_of idx_of node_id of
          None \<Rightarrow> personalization
        | Some idx \<Rightarrow>
            (let boost = 1 + (suspicion_weight - 1) * suspicion_score
             in personalization[idx := personalization ! idx * boost]))"

text \<open>The first loop of the transaction-volume strategy also accumulates \<open>total_weight\<close>.\<close>

fun apply_volumes :: "(node_id, nat) dict \<Rightarrow> (node_id \<times> real) list \<Rightarrow> vector \<times> real \<Rightarrow> vector \<times> real" where
  "apply_volumes idx_of [] acc = acc"
| "apply_volumes idx_of ((node_id, weight) # rest) (personalization, total_weight) =
     apply_volumes idx_of rest
       (case map_of idx_of node_id of
          None \<Rightarrow> (personalization, total_weight)
        | Some idx \<Rightarrow> (personalization[idx := weight], total_weight + weight))"

fun add_suspicion :: "real \<Rightarrow> nat \<Rightarrow> (node_id, nat) dict \<Rightarrow> (node_id \<times> real) list \<Rightarrow> vector \<Rightarrow> vector" where
  "add_suspicion total_weight n idx_of [] personalization = personalization"
| "add_suspicion total_weight n idx_of ((node_id, suspicion_score) # rest) personalization =
     add_suspicion total_weight n idx_of rest
       (case map_of idx_of node_id of
          None \<Rightarrow> personalization
        | Some idx \<Rightarrow>
            personalization[idx := personalization ! idx + suspicion_score * total_weight / real n])"

fun strategy_personalization_vector ::
  "personalization_strategy \<Rightarrow> node_id list \<Rightarrow> (node_id, real) dict option
     \<Rightarrow> (node_id, real) dict option \<Rightarrow> vector" where
  "strategy_personalization_vector (SuspicionBasedPersonalization suspicion_weight)
       node_ids suspicious_nodes base_weights =
     (let n = length node_ids;
          idx_of = index_dict node_ids;
          p0 = ones_over_n n;
          p1 = (if truthy base_weights
                then apply_base_weights idx_of (items base_weights) p0 else p0);
          p2 = (if truthy suspicious_nodes
                then boost_suspicious suspicion_weight idx_of (items suspicious_nodes) p1
                else p1);
          total = sum_list p2
      in if total > 0 then vec_div p2 total else p2)"
| "strategy_personalization_vector TransactionVolumePersonalization
       node_ids suspicious_nodes base_weights =
     (let n = length node_ids in
      if \<not> truthy base_weights then ones_over_n n
      else
        (let idx_of = index_dict node_ids;
             (p1, total_weight) = apply_volumes idx_of (items base_weights) (zeros n, 0);
             p2 = (if truthy suspicious_nodes
                   then add_suspicion total_weight n idx_of (items suspicious_nodes) p1
                   else p1);
             total = sum_list p2
         in if total > 0 then vec_div p2 total else ones_over_n n))"

section \<open>The PageRank engine (domain/pagerank.py, class PowerIterationEngine)\<close>

text \<open>
  The configuration fields, followed by the fields the engine caches from its last
  computation.
\<close>

record engine =
  damping_factor :: real
  max_iterations :: int
  tolerance :: real
  dangling_strategy :: dangling_strategy
  personalization_strategy :: personalization_strategy
  cached_transition_matrix :: "matrix option"
  cached_personalization_vector :: "vector option"
  cached_page_rank :: "vector option"
  iterations_performed :: int
  converged :: bool

definition new_engine ::
  "real \<Rightarrow> int \<Rightarrow> real \<Rightarrow> dangling_strategy \<Rightarrow> personalization_strategy \<Rightarrow> py_error + engine" where
  "new_engine damping max_iter tol ds ps =
     (if \<not> (0 < damping \<and> damping < 1) then Inl ValueError
      else Inr \<lparr>damping_factor = damping, max_iterations = max_iter, tolerance = tol,
                dangling_strategy = ds, personalization_strategy = ps,
                cached_transition_matrix = None, cached_personalization_vector = None,
                cached_page_rank = None, iterations_performed = 0, converged = False\<rparr>)"

text \<open>The engine built by \<open>PowerIterationEngine()\<close> with every default.\<close>

definition default_engine :: engine where
  "default_engine =
     \<lparr>damping_factor = 85 / 100, max_iterations = 100, tolerance = 1 / 10 ^ 8,
      dangling_strategy = UniformDanglingStrategy,
      personalization_strategy = new_suspicion_based 5,
      cached_transition_matrix = None, cached_personalization_vector = None,
      cached_page_rank = None, iterations_performed = 0, converged = False\<rparr>"

text \<open>
  The column-normalised matrix built by the loop of \<open>build_transition_matrix\<close>: column
  \<open>j\<close> is divided by its sum when the sum is positive and is zero otherwise.
\<close>

definition normalize_columns :: "matrix \<Rightarrow> vector \<Rightarrow> matrix" where
  "normalize_columns weighted_adj out_degree =
     map (\<lambda>row. map (\<lambda>j. if out_degree ! j > 0 then row ! j / out_degree ! j else 0)
                     [0..<length weighted_adj])
         weighted_adj"

definition build_transition_matrix ::
  "engine \<Rightarrow> matrix \<Rightarrow> matrix option \<Rightarrow> py_error + (matrix \<times> engine)" where
  "build_transition_matrix e adjacency_matrix weights =
     (let weighted_adj = (case weights of None \<Rightarrow> adjacency_matrix
                          | Some w \<Rightarrow> elementwise adjacency_matrix w);
          out_degree = col_sums weighted_adj;
          dangling_mask = map (\<lambda>x. x = 0) out_degree;
          transition_matrix = normalize_columns weighted_adj out_degree
      in case handle_dangling_nodes (dangling_strategy e) transition_matrix dangling_mask of
           Inl err \<Rightarrow> Inl err
         | Inr adjusted \<Rightarrow> Inr (adjusted, e\<lparr>cached_transition_matrix := Some adjusted\<rparr>))"

definition compute_personalization_vector ::
  "engine \<Rightarrow> node_id list \<Rightarrow> (node_id, real) dict option \<Rightarrow> (node_id, real) dict option
     \<Rightarrow> vector \<times> engine" where
  "compute_personalization_vector e node_ids suspicious_nodes base_weights =
     (let personalization = strategy_personalization_vector (personalization_strategy e)
                              node_ids suspicious_nodes base_weights
      in (personalization, e\<lparr>cached_personalization_vector := Some personalization\<rparr>))"

definition get_convergence_info :: "engine \<Rightarrow> bool \<times> int \<times> real \<times> real" where
  "get_convergence_info e = (converged e, iterations_performed e, damping_factor e, tolerance e)"

subsection \<open>The dense path\<close>

text \<open>
  The method is spelled \<open>compute\<close>, the letter U+0640, \<open>page_rank\<close> in the source; it is
  called \<open>compute_page_rank\<close> here.  Its \<open>graph\<close> argument is used through
  \<open>graph.get_normalized_matrix()\<close> and \<open>graph._node_to_idx\<close> only.  An argument is therefore
  modelled by what these two give: the result of the call, or \<open>None\<close> when the object has
  no attribute of that name, and the index dict.
\<close>

record graph_arg =
  get_normalized_matrix :: "(matrix \<times> bool list \<times> node_id list) option"
  arg_node_to_idx :: "(node_id, nat) dict"

text \<open>
  The attributes of a \<open>SparseGraph\<close> instance: the fields set by the constructor and the
  methods of the class.  \<open>get_normalized_matrix\<close> is not among them.
\<close>

definition sparse_graph_attributes :: "string list" where
  "sparse_graph_attributes =
     [''directed'', ''_adjacency_list'', ''_node_to_idx'', ''_idx_to_node'', ''_edge_count'',
      ''add_node'', ''add_edge'', ''remove_edge'', ''get_neighbors'', ''get_out_degree'',
      ''get_in_degree'', ''get_nodes'', ''get_edges'', ''get_adjacency_matrix'',
      ''get_sparse_adjacency_matrix'', ''subgraph'', ''save_to_file'', ''load_from_file'',
      ''__str__'', ''__len__'', ''to_sparse_matrix'', ''get_dangling_nodes'']"

definition sparse_graph_arg :: "sparse_graph \<Rightarrow> graph_arg" where
  "sparse_graph_arg g = \<lparr>get_normalized_matrix = None, arg_node_to_idx = node_to_idx g\<rparr>"

text \<open>\<open>p[graph._node_to_idx[node_id]] = score\<close> for every suspicious node the graph knows.\<close>

fun set_scores :: "(node_id, nat) dict \<Rightarrow> (node_id \<times> real) list \<Rightarrow> vector \<Rightarrow> py_error + vector" where
  "set_scores idx_of [] p = Inr p"
| "set_scores idx_of ((node_id, score) # rest) p =
     (case map_of idx_of node_id of
        None \<Rightarrow> set_scores idx_of rest p
      | Some idx \<Rightarrow>
          if length p \<le> idx then Inl IndexError
          else set_scores idx_of rest (p[idx := score]))"

text \<open>The body of the dense loop up to the new value of \<open>r\<close>.\<close>

definition dense_step :: "real \<Rightarrow> matrix \<Rightarrow> bool list \<Rightarrow> vector \<Rightarrow> vector \<Rightarrow> vector" where
  "dense_step \<alpha> M dangling_mask p r_prev =
     (let dangling_sum = sum_list (masked r_prev dangling_mask);
          r = scale (1 - \<alpha>) (mat_vec M r_prev)
      in vec_add r (scale (\<alpha> + (1 - \<alpha>) * dangling_sum) p))"

text \<open>
  The dense loop, with the number of iterations still to run and the loop variable
  \<open>iteration\<close>.  It returns the last \<open>r\<close>, and \<open>iteration + 1\<close> if it left through \<open>break\<close>.
\<close>

fun dense_loop ::
  "real \<Rightarrow> real \<Rightarrow> matrix \<Rightarrow> bool list \<Rightarrow> vector \<Rightarrow> nat \<Rightarrow> int \<Rightarrow> vector \<Rightarrow> vector \<times> int option" where
  "dense_loop \<alpha> tol M dangling_mask p 0 iteration r = (r, None)"
| "dense_loop \<alpha> tol M dangling_mask p (Suc k) iteration r =
     (let r_prev = r;
          r' = dense_step \<alpha> M dangling_mask p r_prev;
          diff = norm1 (vec_sub r' r_prev)
      in if diff < tol then (r', Some (iteration + 1))
         else dense_loop \<alpha> tol M dangling_mask p k (iteration + 1) r')"

definition compute_page_rank ::
  "engine \<Rightarrow> graph_arg \<Rightarrow> (node_id, real) dict option
     \<Rightarrow> py_error + ((node_id, real) dict \<times> engine)" where
  "compute_page_rank e graph suspicious_nodes =
     (case get_normalized_matrix graph of
        None \<Rightarrow> Inl AttributeError
      | Some (M, dangling_mask, node_ids) \<Rightarrow>
          (let n = length node_ids in
           case (if truthy suspicious_nodes
                 then set_scores (arg_node_to_idx graph) (items suspicious_nodes) (zeros n)
                 else Inr (zeros n)) of
             Inl err \<Rightarrow> Inl err
           | Inr p0 \<Rightarrow>
               (let p = (if sum_list p0 > 0 then vec_div p0 (sum_list p0) else ones_over_n n);
                    (r, left) = dense_loop (damping_factor e) (tolerance e) M dangling_mask p
                                  (nat (max_iterations e)) 0 p;
                    e' = (case left of
                            None \<Rightarrow> e
                          | Some i \<Rightarrow> e\<lparr>converged := True, iterations_performed := i\<rparr>)
                in Inr (dict_of_pairs (zip node_ids r), e'))))"

subsection \<open>The sparse path\<close>

text \<open>\<open>np.eye(n)[:, dangling_indices]\<close>\<close>

definition eye_columns :: "nat \<Rightarrow> nat list \<Rightarrow> matrix" where
  "eye_columns n indices = map (\<lambda>i. map (\<lambda>j. if i = j then 1 else 0) indices) [0..<n]"

text \<open>The body of the sparse loop up to the new value of \<open>r\<close>.\<close>

definition sparse_step ::
  "real \<Rightarrow> nat \<Rightarrow> matrix \<Rightarrow> vector \<Rightarrow> bool list \<Rightarrow> vector \<Rightarrow> vector \<Rightarrow> vector \<Rightarrow> vector" where
  "sparse_step \<alpha> n weighted_adj out_degree dangling_mask dangling_teleport p r_prev =
     (let rM0 = zeros n;
          non_dangling = map (\<lambda>x. x > 0) out_degree;
          rM1 = (if np_any non_dangling then
                   fold (\<lambda>j rM. vec_add rM
                           (scale (r_prev ! j) (vec_div (column weighted_adj j) (out_degree ! j))))
                        (where_true non_dangling) rM0
                 else rM0);
          rM2 = (if np_any dangling_mask then
                   fold (\<lambda>j rM. vec_add rM (scale (r_prev ! j) dangling_teleport))
                        (where_true dangling_mask) rM1
                 else rM1)
      in vec_add (scale (1 - \<alpha>) rM2) (scale \<alpha> p))"

fun sparse_loop ::
  "real \<Rightarrow> real \<Rightarrow> nat \<Rightarrow> matrix \<Rightarrow> vector \<Rightarrow> bool list \<Rightarrow> vector \<Rightarrow> vector
     \<Rightarrow> nat \<Rightarrow> int \<Rightarrow> vector \<Rightarrow> vector \<times> int option" where
  "sparse_loop \<alpha> tol n W out_degree dangling_mask dangling_teleport p 0 iteration r = (r, None)"
| "sparse_loop \<alpha> tol n W out_degree dangling_mask dangling_teleport p (Suc k) iteration r =
     (let r_prev = r;
          r' = sparse_step \<alpha> n W out_degree dangling_mask dangling_teleport p r_prev;
          diff = norm1 (vec_sub r' r_prev)
      in if diff < tol then (r', Some (iteration + 1))
         else sparse_loop \<alpha> tol n W out_degree dangling_mask dangling_teleport p k
                (iteration + 1) r')"

definition compute_sparse_page_rank ::
  "engine \<Rightarrow> node_id list \<Rightarrow> matrix \<Rightarrow> matrix option \<Rightarrow> (node_id, real) dict option
     \<Rightarrow> (node_id, real) dict option \<Rightarrow> py_error + ((node_id, real) dict \<times> engine)" where
  "compute_sparse_page_rank e node_ids sparse_adjacency weights suspicious_nodes base_weights =
     (let n = length node_ids;
          weighted_adj = (case weights of None \<Rightarrow> sparse_adjacency
                          | Some w \<Rightarrow> elementwise sparse_adjacency w);
          out_degree = col_sums weighted_adj;
          dangling_mask = map (\<lambda>x. x = 0) out_degree;
          (p, e1) = compute_personalization_vector e node_ids suspicious_nodes base_weights;
          r0 = ones_over_n n
      in case (if np_any dangling_mask then
                 (let dangling_indices = where_true dangling_mask;
                      dummy_matrix = eye_columns n dangling_indices
                  in case handle_dangling_nodes (dangling_strategy e1) dummy_matrix
                            (replicate (length dangling_indices) True) of
                       Inl err \<Rightarrow> Inl err
                     | Inr handled \<Rightarrow> Inr p)
               else Inr (zeros n)) of
           Inl err \<Rightarrow> Inl err
         | Inr dangling_teleport \<Rightarrow>
             (let (r, left) = sparse_loop (damping_factor e1) (tolerance e1) n weighted_adj
                                out_degree dangling_mask dangling_teleport p
                                (nat (max_iterations e1)) 0 r0;
                  e2 = (case left of
                          Some i \<Rightarrow> e1\<lparr>converged := True, iterations_performed := i\<rparr>
                        | None \<Rightarrow> e1\<lparr>converged := False,
                                     iterations_performed := max_iterations e1\<rparr>)
              in Inr (dict_of_pairs (zip node_ids r), e2\<lparr>cached_page_rank := Some r\<rparr>)))"

subsection \<open>Notions used in the statements about the engine\<close>

text \<open>A matrix is column-stochastic when each of its columns sums to one.\<close>

definition column_stochastic :: "matrix \<Rightarrow> bool" where
  "column_stochastic T = (col_sums T = replicate (ncols T) 1)"

text \<open>The score mapping returned by a computation, or the exception it raised.\<close>

definition scores_of ::
  "py_error + ((node_id, real) dict \<times> engine) \<Rightarrow> py_error + (node_id, real) dict" where
  "scores_of res = map_sum id fst res"

text \<open>
  Two graphs as the dense path sees them: nodes \<open>a\<close> and \<open>b\<close> joined by the edges
  \<open>a \<rightarrow> b\<close> and \<open>b \<rightarrow> a\<close>, and the same two nodes without any edge (both dangling).
\<close>

definition two_cycle_arg :: graph_arg where
  "two_cycle_arg =
     \<lparr>get_normalized_matrix = Some ([[0, 1], [1, 0]], [False, False], [''a'', ''b'']),
      arg_node_to_idx = [(''a'', 0), (''b'', 1)]\<rparr>"

definition isolated_pair_arg :: graph_arg where
  "isolated_pair_arg =
     \<lparr>get_normalized_matrix = Some ([[0, 0], [0, 0]], [True, True], [''a'', ''b'']),
      arg_node_to_idx = [(''a'', 0), (''b'', 1)]\<rparr>"

text \<open>\<open>PowerIterationEngine(max_iterations=1, tolerance=1e-12)\<close>\<close>

definition strict_one_step_engine :: engine where
  "strict_one_step_engine = default_engine\<lparr>max_iterations := 1, tolerance := 1 / 10 ^ 12\<rparr>"

text \<open>
  The iterates \<open>r\<^sub>t\<close> of the dense recurrence from a starting vector, and the residual
  \<open>\<parallel>r\<^sub>t\<^sub>+\<^sub>1 - r\<^sub>t\<parallel>\<^sub>1\<close> the loop compares with the tolerance.
\<close>

definition dense_iterate ::
  "real \<Rightarrow> matrix \<Rightarrow> bool list \<Rightarrow> vector \<Rightarrow> nat \<Rightarrow> vector \<Rightarrow> vector" where
  "dense_iterate \<alpha> M dangling_mask p t r0 = ((dense_step \<alpha> M dangling_mask p) ^^ t) r0"

definition dense_residual ::
  "real \<Rightarrow> matrix \<Rightarrow> bool list \<Rightarrow> vector \<Rightarrow> nat \<Rightarrow> vector \<Rightarrow> real" where
  "dense_residual \<alpha> M dangling_mask p t r0 =
     norm1 (vec_sub (dense_iterate \<alpha> M dangling_mask p (Suc t) r0)
                    (dense_iterate \<alpha> M dangling_mask p t r0))"

text \<open>Two engines with the same configuration; their cached fields may differ.\<close>

definition same_configuration :: "engine \<Rightarrow> engine \<Rightarrow> bool" where
  "same_configuration e1 e2 =
     (damping_factor e1 = damping_factor e2 \<and> max_iterations e1 = max_iterations e2
      \<and> tolerance e1 = tolerance e2 \<and> dangling_strategy e1 = dangling_strategy e2
      \<and> personalization_strategy e1 = personalization_strategy e2)"

section \<open>The text format (save_to_file, load_from_file)\<close>

text \<open>
  A Python string is a list of characters, each character a code point below 256.  The
  text of a float (\<open>f"{weight}"\<close>) and its parsing (\<open>float(text)\<close>, which raises
  \<open>ValueError\<close> on malformed text) are not modelled: they are parameters \<open>fmt\<close> and
  \<open>parse\<close> of the two functions.
\<close>

definition LF :: char where "LF = CHR 0x0A"

definition CR :: char where "CR = CHR 0x0D"

text \<open>The characters removed by \<open>str.strip()\<close>.\<close>

definition is_space :: "char \<Rightarrow> bool" where
  "is_space c = ((of_char c :: nat) \<in> set [9, 10, 11, 12, 13, 28, 29, 30, 31, 32, 133, 160])"

definition strip :: "string \<Rightarrow> string" where
  "strip s = rev (dropWhile is_space (rev (dropWhile is_space s)))"

text \<open>\<open>s.split(sep)\<close> for a one-character separator; the result is never empty.\<close>

fun split_on :: "char \<Rightarrow> string \<Rightarrow> string list" where
  "split_on sep [] = [[]]"
| "split_on sep (c # cs) =
     (if c = sep then [] # split_on sep cs
      else (case split_on sep cs of [] \<Rightarrow> [[c]] | x # xs \<Rightarrow> (c # x) # xs))"

text \<open>\<open>str(n)\<close> for an integer.\<close>

function str_nat :: "nat \<Rightarrow> string" where
  "str_nat n = (if n < 10 then [char_of (48 + n)]
                else str_nat (n div 10) @ [char_of (48 + n mod 10)])"
  by pat_completeness auto
termination
  by (relation "measure id") auto

declare str_nat.simps [simp del]

definition str_int :: "int \<Rightarrow> string" where
  "str_int i = (if i < 0 then CHR ''-'' # str_nat (nat (- i)) else str_nat (nat i))"

text \<open>
  Reading in text mode translates the line ends \<open>CR LF\<close> and \<open>CR\<close> into \<open>LF\<close>; \<open>readlines\<close>
  cuts the text after each \<open>LF\<close> and keeps the \<open>LF\<close> in the line.
\<close>

fun universal_newlines :: "string \<Rightarrow> string" where
  "universal_newlines [] = []"
| "universal_newlines [c] = [if c = CR then LF else c]"
| "universal_newlines (c # d # cs) =
     (if c = CR \<and> d = LF then LF # universal_newlines cs
      else if c = CR then LF # universal_newlines (d # cs)
      else c # universal_newlines (d # cs))"

fun split_lines :: "string \<Rightarrow> string \<Rightarrow> string list" where
  "split_lines cur [] = (if cur = [] then [] else [cur])"
| "split_lines cur (c # cs) =
     (if c = LF then (cur @ [LF]) # split_lines [] cs else split_lines (cur @ [c]) cs)"

definition readlines :: "string \<Rightarrow> string list" where
  "readlines text = split_lines [] (universal_newlines text)"

definition edge_line :: "(real \<Rightarrow> string) \<Rightarrow> node_id \<times> node_id \<times> real \<Rightarrow> string" where
  "edge_line fmt e =
     (case e of (source, target, weight) \<Rightarrow>
        source @ '','' @ target @ '','' @ fmt weight @ [LF])"

definition save_to_file :: "(real \<Rightarrow> string) \<Rightarrow> sparse_graph \<Rightarrow> string" where
  "save_to_file fmt g =
     ''directed:'' @ (if directed g then ''True'' else ''False'') @ [LF]
     @ ''nodes:'' @ str_nat (length (adjacency_list g)) @ [LF]
     @ ''edges:'' @ str_int (edge_count g) @ [LF]
     @ concat (map (edge_line fmt) (get_edges g))"

text \<open>\<open>lines[0].strip().split(':')[1] == 'True'\<close>; both subscripts can raise.\<close>

definition parse_directed :: "string list \<Rightarrow> py_error + bool" where
  "parse_directed lines =
     (case lines of
        [] \<Rightarrow> Inl IndexError
      | first # _ \<Rightarrow>
          (let parts = split_on CHR '':'' (strip first)
           in if length parts < 2 then Inl IndexError else Inr (parts ! 1 = ''True'')))"

fun load_edges ::
  "(string \<Rightarrow> real option) \<Rightarrow> sparse_graph \<Rightarrow> string list \<Rightarrow> py_error + sparse_graph" where
  "load_edges parse graph [] = Inr graph"
| "load_edges parse graph (line # rest) =
     (if strip line \<noteq> [] then
        (let parts = split_on CHR '','' (strip line) in
         if length parts \<ge> 2 then
           (let source = parts ! 0; target = parts ! 1 in
            case (if length parts > 2 then parse (parts ! 2) else Some 1) of
              None \<Rightarrow> Inl ValueError
            | Some weight \<Rightarrow> load_edges parse (add_edge graph source target weight) rest)
         else load_edges parse graph rest)
      else load_edges parse graph rest)"

definition load_from_file :: "(string \<Rightarrow> real option) \<Rightarrow> string \<Rightarrow> py_error + sparse_graph" where
  "load_from_file parse text =
     (let lines = readlines text in
      case parse_directed lines of
        Inl err \<Rightarrow> Inl err
      | Inr d \<Rightarrow> load_edges parse (new_graph d) (drop 3 lines))"

text \<open>
  What the round trip needs from the texts involved.  A node identifier must not contain
  the field separator or a line end and must not begin with a character that \<open>strip\<close>
  removes; the text of a weight must not contain the separator or a line end, must not
  end with a character that \<open>strip\<close> removes, and must parse back to the weight.
\<close>

definition clean_id :: "node_id \<Rightarrow> bool" where
  "clean_id n =
     (CHR '','' \<notin> set n \<and> LF \<notin> set n \<and> CR \<notin> set n \<and> (n = [] \<or> \<not> is_space (hd n)))"

definition clean_weight :: "(real \<Rightarrow> string) \<Rightarrow> (string \<Rightarrow> real option) \<Rightarrow> real \<Rightarrow> bool" where
  "clean_weight fmt parse w =
     (CHR '','' \<notin> set (fmt w) \<and> LF \<notin> set (fmt w) \<and> CR \<notin> set (fmt w)
      \<and> (fmt w = [] \<or> \<not> is_space (last (fmt w))) \<and> parse (fmt w) = Some w)"

text \<open>The endpoints of the stored edges, and a stand-in for the float conversions.\<close>

definition edge_endpoints :: "sparse_graph \<Rightarrow> node_id set" where
  "edge_endpoints g = fst ` set (get_edges g) \<union> (fst \<circ> snd) ` set (get_edges g)"

definition unit_fmt :: "real \<Rightarrow> string" where
  "unit_fmt w = ''1.0''"

definition unit_parse :: "string \<Rightarrow> real option" where
  "unit_parse s = (if s = ''1.0'' then Some 1 else None)"

text \<open>The calls of \<open>add_edge\<close> made by the loader for a list of edge records.\<close>

definition add_edges :: "(node_id \<times> node_id \<times> real) list \<Rightarrow> sparse_graph \<Rightarrow> sparse_graph" where
  "add_edges es g0 = fold (\<lambda>(s, t, w) g. add_edge g s t w) es g0"

text \<open>An edge record whose three texts meet the conditions above.\<close>

definition clean_edge ::
  "(real \<Rightarrow> string) \<Rightarrow> (string \<Rightarrow> real option) \<Rightarrow> node_id \<times> node_id \<times> real \<Rightarrow> bool" where
  "clean_edge fmt parse e =
     (case e of (s, t, w) \<Rightarrow> clean_id s \<and> clean_id t \<and> clean_weight fmt parse w)"

text \<open>Every target of a stored edge is a node of the graph.\<close>

definition closed_inv :: "sparse_graph \<Rightarrow> bool" where
  "closed_inv g =
     (\<forall>s t. edge_weight g s t \<noteq> None \<longrightarrow> dict_contains (adjacency_list g) t)"

text \<open>The lines of a saved file without their line ends.\<close>

definition edge_body :: "(real \<Rightarrow> string) \<Rightarrow> node_id \<times> node_id \<times> real \<Rightarrow> string" where
  "edge_body fmt e = (case e of (s, t, w) \<Rightarrow> s @ '','' @ t @ '','' @ fmt w)"

definition header_line :: "bool \<Rightarrow> string" where
  "header_line d = ''directed:'' @ (if d then ''True'' else ''False'')"

definition nodes_line :: "nat \<Rightarrow> string" where
  "nodes_line n = ''nodes:'' @ str_nat n"

definition edges_line :: "int \<Rightarrow> string" where
  "edges_line i = ''edges:'' @ str_int i"

section \<open>Properties of the graph store\<close>

lemma keys_dom: "set (dict_keys d) = dom (map_of d)"
  by (simp add: dict_keys_def dom_map_of_conv_image_fst)

lemma dict_contains_map_of: "dict_contains d k \<longleftrightarrow> map_of d k \<noteq> None"
  by (simp add: dict_contains_def keys_dom dom_def)

lemma map_of_dict_set: "map_of (dict_set d k v) = (map_of d)(k \<mapsto> v)"
  by (induction d) auto

lemma keys_dict_set: "set (dict_keys (dict_set d k v)) = insert k (set (dict_keys d))"
  by (simp add: keys_dom map_of_dict_set)

lemma distinct_dict_set: "distinct (dict_keys d) \<Longrightarrow> distinct (dict_keys (dict_set d k v))"
proof (induction d)
  case Nil
  then show ?case by (simp add: dict_keys_def)
next
  case (Cons p d)
  obtain k' v' where p: "p = (k', v')" by (cases p)
  have ks: "set (map fst (dict_set d k v)) = insert k (set (map fst d))"
    using keys_dict_set [of d k v] by (simp add: dict_keys_def)
  from Cons.prems p have d: "distinct (map fst d)" and k': "k' \<notin> set (map fst d)"
    by (simp_all add: dict_keys_def)
  from Cons.IH d have ih: "distinct (map fst (dict_set d k v))" by (simp add: dict_keys_def)
  show ?case
  proof (cases "k' = k")
    case True
    with p d k' show ?thesis by (simp add: dict_keys_def)
  next
    case False
    with p ih k' ks show ?thesis by (simp add: dict_keys_def)
  qed
qed

lemma length_dict_set:
  "length (dict_set d k v) = (if dict_contains d k then length d else Suc (length d))"
  by (induction d) (auto simp: dict_contains_map_of)

lemma map_of_dict_del:
  "distinct (dict_keys d) \<Longrightarrow> map_of (dict_del d k) = (map_of d)(k := None)"
proof (induction d)
  case Nil
  then show ?case by simp
next
  case (Cons p d)
  obtain k' v' where p: "p = (k', v')" by (cases p)
  from Cons.prems p have d: "distinct (dict_keys d)" and k': "k' \<notin> set (dict_keys d)"
    by (simp_all add: dict_keys_def)
  show ?case
  proof (cases "k' = k")
    case True
    with k' have "map_of d k = None" by (auto simp: keys_dom)
    with True p show ?thesis by (auto simp: fun_eq_iff)
  next
    case False
    have "map_of (dict_del d k) = (map_of d)(k := None)" by (rule Cons.IH [OF d])
    with False p show ?thesis by (simp add: fun_eq_iff)
  qed
qed

lemma keys_dict_del:
  "distinct (dict_keys d) \<Longrightarrow> set (dict_keys (dict_del d k)) = set (dict_keys d) - {k}"
  by (auto simp: keys_dom map_of_dict_del split: if_splits)

lemma distinct_dict_del: "distinct (dict_keys d) \<Longrightarrow> distinct (dict_keys (dict_del d k))"
proof (induction d)
  case Nil
  then show ?case by (simp add: dict_keys_def)
next
  case (Cons p d)
  obtain k' v' where p: "p = (k', v')" by (cases p)
  from Cons.prems p have d: "distinct (dict_keys d)" and k': "k' \<notin> set (dict_keys d)"
    by (simp_all add: dict_keys_def)
  have "set (dict_keys (dict_del d k)) = set (dict_keys d) - {k}"
    by (rule keys_dict_del [OF d])
  with k' have "k' \<notin> set (dict_keys (dict_del d k))" by simp
  with Cons.IH [OF d] d p show ?case by (simp add: dict_keys_def)
qed

lemma length_dict_del:
  "dict_contains d k \<Longrightarrow> Suc (length (dict_del d k)) = length d"
  by (induction d) (auto simp: dict_contains_map_of)

lemma stored_pairs_pairs: "stored_pairs g = pairs (adjacency_list g)"
proof -
  have "length (concat (map (\<lambda>(source, nb). map (\<lambda>(target, weight). (source, target, weight)) nb) adj))
        = sum_list (map (\<lambda>p. length (snd p)) adj)" for adj :: "(node_id, (node_id, real) dict) dict"
    by (induction adj) auto
  then show ?thesis by (simp add: stored_pairs_def get_edges_def pairs_def)
qed

lemma pairs_dict_set_new:
  "\<not> dict_contains adj s \<Longrightarrow> pairs (dict_set adj s nb) = pairs adj + length nb"
  by (induction adj) (auto simp: pairs_def dict_contains_map_of)

lemma pairs_dict_set_old:
  "map_of adj s = Some nb \<Longrightarrow> pairs (dict_set adj s nb') + length nb = pairs adj + length nb'"
  by (induction adj) (auto simp: pairs_def)

lemma get_or_empty_dict_set:
  "dict_get_or_empty (dict_set adj s nb) a = (if a = s then nb else dict_get_or_empty adj a)"
  by (simp add: dict_get_or_empty_def map_of_dict_set)

lemma snd_set_dict_set: "x \<in> snd ` set (dict_set d k v) \<Longrightarrow> x = v \<or> x \<in> snd ` set d"
  by (induction d) (force split: if_splits)+

lemma add_edge_put_edge:
  "add_edge g s t w =
     (let g3 = put_edge (add_node (add_node g s) t) s t w
      in if \<not> directed g3 \<and> s \<noteq> t then put_edge g3 t s w else g3)"
  by (simp add: add_edge_def put_edge_def Let_def)

lemma add_node_adj:
  "adjacency_list (add_node g n) =
     (if dict_contains (adjacency_list g) n then adjacency_list g
      else dict_set (adjacency_list g) n [])"
  by (simp add: add_node_def Let_def)

lemma add_node_fields [simp]:
  "directed (add_node g n) = directed g" "edge_count (add_node g n) = edge_count g"
  by (simp_all add: add_node_def Let_def)

lemma add_node_contains: "dict_contains (adjacency_list (add_node g n)) m
    \<longleftrightarrow> m = n \<or> dict_contains (adjacency_list g) m"
  by (auto simp: add_node_adj dict_contains_def keys_dict_set)

lemma get_or_empty_absent: "\<not> dict_contains adj n \<Longrightarrow> dict_get_or_empty adj n = []"
  by (simp add: dict_contains_map_of dict_get_or_empty_def)

lemma add_node_get_or_empty:
  "dict_get_or_empty (adjacency_list (add_node g n)) a = dict_get_or_empty (adjacency_list g) a"
  by (simp add: add_node_adj get_or_empty_dict_set get_or_empty_absent)

lemma add_node_edge_weight [simp]: "edge_weight (add_node g n) a b = edge_weight g a b"
  by (simp add: edge_weight_def add_node_get_or_empty)

lemma add_node_store_inv: "store_inv g \<Longrightarrow> store_inv (add_node g n)"
proof (cases "dict_contains (adjacency_list g) n")
  case True
  assume "store_inv g"
  with True show ?thesis by (simp add: add_node_def)
next
  case False
  assume inv: "store_inv g"
  have adj: "adjacency_list (add_node g n) = dict_set (adjacency_list g) n []"
    using False by (simp add: add_node_adj)
  have 1: "distinct (dict_keys (adjacency_list (add_node g n)))"
    using inv by (simp add: adj store_inv_def distinct_dict_set)
  have 2: "\<forall>nb \<in> snd ` set (adjacency_list (add_node g n)). distinct (dict_keys nb)"
  proof
    fix nb assume "nb \<in> snd ` set (adjacency_list (add_node g n))"
    then have "nb = [] \<or> nb \<in> snd ` set (adjacency_list g)"
      unfolding adj by (rule snd_set_dict_set)
    with inv show "distinct (dict_keys nb)" by (auto simp: store_inv_def dict_keys_def)
  qed
  have 3: "edge_count (add_node g n) = int (stored_pairs (add_node g n))"
    using inv False by (simp add: stored_pairs_pairs adj pairs_dict_set_new store_inv_def)
  from 1 2 3 show ?thesis by (simp add: store_inv_def)
qed

lemma get_or_empty_present:
  "dict_contains adj s \<Longrightarrow> map_of adj s = Some (dict_get_or_empty adj s)"
  by (auto simp: dict_contains_map_of dict_get_or_empty_def)

lemma get_or_empty_distinct:
  "\<forall>nb \<in> snd ` set adj. distinct (dict_keys nb) \<Longrightarrow> distinct (dict_keys (dict_get_or_empty adj s))"
proof (cases "map_of adj s")
  case None
  then show ?thesis by (simp add: dict_get_or_empty_def dict_keys_def)
next
  case (Some nb)
  assume a: "\<forall>nb \<in> snd ` set adj. distinct (dict_keys nb)"
  from Some have "(s, nb) \<in> set adj" by (rule map_of_SomeD)
  then have "nb \<in> snd ` set adj" by force
  with a have "distinct (dict_keys nb)" by blast
  with Some show ?thesis by (simp add: dict_get_or_empty_def)
qed

lemma put_edge_fields [simp]:
  "directed (put_edge g s t w) = directed g"
  by (simp add: put_edge_def Let_def)

lemma put_edge_adj:
  "adjacency_list (put_edge g s t w) =
     dict_set (adjacency_list g) s (dict_set (dict_get_or_empty (adjacency_list g) s) t w)"
  by (simp add: put_edge_def Let_def)

lemma put_edge_count:
  "edge_count (put_edge g s t w) = edge_count g + (if edge_weight g s t = None then 1 else 0)"
  by (simp add: put_edge_def Let_def edge_weight_def dict_contains_map_of)

lemma put_edge_contains:
  "dict_contains (adjacency_list (put_edge g s t w)) m \<longleftrightarrow> m = s \<or> dict_contains (adjacency_list g) m"
  by (auto simp: put_edge_adj dict_contains_def keys_dict_set)

lemma put_edge_weight:
  "edge_weight (put_edge g s t w) a b = (if a = s \<and> b = t then Some w else edge_weight g a b)"
  by (simp add: edge_weight_def put_edge_adj get_or_empty_dict_set map_of_dict_set)

lemma put_edge_store_inv:
  assumes inv: "store_inv g" and s: "dict_contains (adjacency_list g) s"
  shows "store_inv (put_edge g s t w)"
proof -
  let ?adj = "adjacency_list g"
  let ?nb = "dict_get_or_empty ?adj s"
  let ?nb' = "dict_set ?nb t w"
  have nbd: "distinct (dict_keys ?nb)"
    using inv by (simp add: store_inv_def get_or_empty_distinct)
  have 1: "distinct (dict_keys (adjacency_list (put_edge g s t w)))"
    using inv by (simp add: put_edge_adj store_inv_def distinct_dict_set)
  have 2: "\<forall>nb \<in> snd ` set (adjacency_list (put_edge g s t w)). distinct (dict_keys nb)"
  proof
    fix nb assume "nb \<in> snd ` set (adjacency_list (put_edge g s t w))"
    then have "nb = ?nb' \<or> nb \<in> snd ` set ?adj"
      unfolding put_edge_adj by (rule snd_set_dict_set)
    with inv nbd show "distinct (dict_keys nb)" by (auto simp: store_inv_def distinct_dict_set)
  qed
  have "pairs (dict_set ?adj s ?nb') + length ?nb = pairs ?adj + length ?nb'"
    by (rule pairs_dict_set_old [OF get_or_empty_present [OF s]])
  then have "int (pairs (dict_set ?adj s ?nb'))
      = int (pairs ?adj) + (if dict_contains ?nb t then 0 else 1)"
    by (simp add: length_dict_set split: if_splits)
  then have 3: "edge_count (put_edge g s t w) = int (stored_pairs (put_edge g s t w))"
    using inv
    by (simp add: put_edge_count stored_pairs_pairs put_edge_adj store_inv_def
        edge_weight_def dict_contains_map_of)
  from 1 2 3 show ?thesis by (simp add: store_inv_def)
qed

lemma add_edge_store_inv: "store_inv g \<Longrightarrow> store_inv (add_edge g s t w)"
  by (simp add: add_edge_put_edge Let_def put_edge_store_inv add_node_store_inv
      add_node_contains put_edge_contains)

lemma add_edge_directed [simp]: "directed (add_edge g s t w) = directed g"
  by (simp add: add_edge_put_edge Let_def)

lemma add_edge_weight:
  "edge_weight (add_edge g s t w) a b =
     (if (a = s \<and> b = t) \<or> (\<not> directed g \<and> s \<noteq> t \<and> a = t \<and> b = s) then Some w
      else edge_weight g a b)"
  by (simp add: add_edge_put_edge Let_def put_edge_weight)

lemma add_edge_count:
  "edge_count (add_edge g s t w) =
     edge_count g + (if edge_weight g s t = None then 1 else 0)
       + (if \<not> directed g \<and> s \<noteq> t \<and> edge_weight g t s = None then 1 else 0)"
  by (simp add: add_edge_put_edge Let_def put_edge_count put_edge_weight)

lemma add_edge_contains:
  "dict_contains (adjacency_list (add_edge g s t w)) m
     \<longleftrightarrow> m = s \<or> m = t \<or> dict_contains (adjacency_list g) m"
  by (auto simp: add_edge_put_edge Let_def put_edge_contains add_node_contains)

lemma edge_weight_present:
  "edge_weight g s t \<noteq> None \<longleftrightarrow>
     dict_contains (adjacency_list g) s
     \<and> dict_contains (dict_get_or_empty (adjacency_list g) s) t"
  by (auto simp: edge_weight_def dict_contains_map_of dict_get_or_empty_def split: option.splits)

lemma remove_edge_drop_edge:
  "remove_edge g s t =
     (if edge_weight g s t \<noteq> None then
        (let g1 = drop_edge g s t
         in if \<not> directed g \<and> s \<noteq> t then
              (if edge_weight g1 t s \<noteq> None then Inr (True, drop_edge g1 t s) else Inl KeyError)
            else Inr (True, g1))
      else Inr (False, g))"
proof (cases "edge_weight g s t \<noteq> None")
  case False
  then have "\<not> (dict_contains (adjacency_list g) s
     \<and> dict_contains (dict_get_or_empty (adjacency_list g) s) t)"
    using edge_weight_present [of g s t] by blast
  then have "remove_edge g s t = Inr (False, g)"
    unfolding remove_edge_def by (rule if_not_P)
  with False show ?thesis by simp
next
  case True
  let ?g1 = "drop_edge g s t"
  have guard: "dict_contains (adjacency_list g) s
     \<and> dict_contains (dict_get_or_empty (adjacency_list g) s) t"
    using True edge_weight_present [of g s t] by blast
  have g1: "g\<lparr>adjacency_list :=
         dict_set (adjacency_list g) s (dict_del (dict_get_or_empty (adjacency_list g) s) t),
       edge_count := edge_count g - 1\<rparr> = ?g1"
    by (simp add: drop_edge_def)
  have d1 [simp]: "directed ?g1 = directed g" by (simp add: drop_edge_def)
  have mirror: "(case map_of (adjacency_list ?g1) t of
                 None \<Rightarrow> Inl KeyError
               | Some nb' \<Rightarrow>
                   if dict_contains nb' s then
                     Inr (True, ?g1\<lparr>adjacency_list :=
                                    dict_set (adjacency_list ?g1) t (dict_del nb' s),
                                  edge_count := edge_count ?g1 - 1\<rparr>)
                   else Inl KeyError)
        = (if edge_weight ?g1 t s \<noteq> None then Inr (True, drop_edge ?g1 t s) else Inl KeyError)"
  proof (cases "map_of (adjacency_list ?g1) t")
    case None
    then show ?thesis by (simp add: edge_weight_def dict_get_or_empty_def)
  next
    case (Some nb')
    then have "dict_get_or_empty (adjacency_list ?g1) t = nb'"
      by (simp add: dict_get_or_empty_def)
    with Some show ?thesis
      by (simp add: edge_weight_def dict_contains_map_of drop_edge_def [of ?g1])
  qed
  show ?thesis
    using True guard
    by (simp only: remove_edge_def Let_def g1 mirror d1 if_True simp_thms)
qed

lemma drop_edge_fields [simp]:
  "directed (drop_edge g s t) = directed g" "edge_count (drop_edge g s t) = edge_count g - 1"
  by (simp_all add: drop_edge_def)

lemma drop_edge_adj:
  "adjacency_list (drop_edge g s t) =
     dict_set (adjacency_list g) s (dict_del (dict_get_or_empty (adjacency_list g) s) t)"
  by (simp add: drop_edge_def)

lemma drop_edge_weight:
  assumes "store_inv g"
  shows "edge_weight (drop_edge g s t) a b = (if a = s \<and> b = t then None else edge_weight g a b)"
proof -
  have "distinct (dict_keys (dict_get_or_empty (adjacency_list g) s))"
    using assms by (simp add: store_inv_def get_or_empty_distinct)
  then show ?thesis
    by (simp add: edge_weight_def drop_edge_adj get_or_empty_dict_set map_of_dict_del)
qed

lemma drop_edge_store_inv:
  assumes inv: "store_inv g" and e: "edge_weight g s t \<noteq> None"
  shows "store_inv (drop_edge g s t)"
proof -
  let ?adj = "adjacency_list g"
  let ?nb = "dict_get_or_empty ?adj s"
  let ?nb' = "dict_del ?nb t"
  from e have s: "dict_contains ?adj s" and t: "dict_contains ?nb t"
    using edge_weight_present [of g s t] by blast+
  have nbd: "distinct (dict_keys ?nb)"
    using inv by (simp add: store_inv_def get_or_empty_distinct)
  have 1: "distinct (dict_keys (adjacency_list (drop_edge g s t)))"
    using inv by (simp add: drop_edge_adj store_inv_def distinct_dict_set)
  have 2: "\<forall>nb \<in> snd ` set (adjacency_list (drop_edge g s t)). distinct (dict_keys nb)"
  proof
    fix nb assume "nb \<in> snd ` set (adjacency_list (drop_edge g s t))"
    then have "nb = ?nb' \<or> nb \<in> snd ` set ?adj"
      unfolding drop_edge_adj by (rule snd_set_dict_set)
    with inv nbd show "distinct (dict_keys nb)" by (auto simp: store_inv_def distinct_dict_del)
  qed
  have "pairs (dict_set ?adj s ?nb') + length ?nb = pairs ?adj + length ?nb'"
    by (rule pairs_dict_set_old [OF get_or_empty_present [OF s]])
  moreover have "Suc (length ?nb') = length ?nb" by (rule length_dict_del [OF t])
  ultimately have "int (pairs (dict_set ?adj s ?nb')) = int (pairs ?adj) - 1"
    by simp
  then have 3: "edge_count (drop_edge g s t) = int (stored_pairs (drop_edge g s t))"
    using inv by (simp add: stored_pairs_pairs drop_edge_adj store_inv_def)
  from 1 2 3 show ?thesis by (simp add: store_inv_def)
qed

lemma graph_inv_store: "graph_inv g \<longleftrightarrow>
    store_inv g \<and> (\<not> directed g \<longrightarrow> (\<forall>s t. edge_weight g s t = edge_weight g t s))"
  by (auto simp: graph_inv_def store_inv_def)

lemma new_graph_inv: "graph_inv (new_graph d)"
  by (simp add: graph_inv_def new_graph_def dict_keys_def stored_pairs_def get_edges_def
      edge_weight_def dict_get_or_empty_def)

lemma add_node_inv: "graph_inv g \<Longrightarrow> graph_inv (add_node g n)"
  by (simp add: graph_inv_store add_node_store_inv)

lemma add_edge_inv:
  assumes "graph_inv g"
  shows "graph_inv (add_edge g s t w)"
proof -
  from assms have st: "store_inv (add_edge g s t w)"
    by (simp add: graph_inv_store add_edge_store_inv)
  have "edge_weight (add_edge g s t w) a b = edge_weight (add_edge g s t w) b a"
    if "\<not> directed g" for a b
  proof -
    from assms that have e: "edge_weight g a b = edge_weight g b a"
      by (simp add: graph_inv_store)
    have "edge_weight (add_edge g s t w) a b =
       (if (a = s \<and> b = t) \<or> (a = t \<and> b = s) then Some w else edge_weight g a b)"
      unfolding add_edge_weight using that
      by (cases "a = s"; cases "b = t"; cases "a = t"; cases "b = s"; simp)
    moreover have "edge_weight (add_edge g s t w) b a =
       (if (a = s \<and> b = t) \<or> (a = t \<and> b = s) then Some w else edge_weight g b a)"
      unfolding add_edge_weight using that
      by (cases "a = s"; cases "b = t"; cases "a = t"; cases "b = s"; simp)
    ultimately show ?thesis by (simp only: e)
  qed
  with st show ?thesis by (simp add: graph_inv_store)
qed

lemma remove_edge_inv:
  assumes inv: "graph_inv g"
  shows "\<exists>ok g'. remove_edge g s t = Inr (ok, g') \<and> graph_inv g' \<and> directed g' = directed g
            \<and> (ok \<longleftrightarrow> edge_weight g s t \<noteq> None)"
proof (cases "edge_weight g s t \<noteq> None")
  case False
  then have "remove_edge g s t = Inr (False, g)" by (simp add: remove_edge_drop_edge)
  with inv False show ?thesis by (intro exI [of _ False] exI [of _ g]) simp
next
  case True
  from inv have st: "store_inv g" by (simp add: graph_inv_store)
  have st1: "store_inv (drop_edge g s t)" by (rule drop_edge_store_inv [OF st True])
  show ?thesis
  proof (cases "\<not> directed g \<and> s \<noteq> t")
    case False
    then have r: "remove_edge g s t = Inr (True, drop_edge g s t)"
      using True by (auto simp: remove_edge_drop_edge Let_def)
    have "graph_inv (drop_edge g s t)"
    proof (cases "directed g")
      case True
      with st1 show ?thesis by (simp add: graph_inv_store)
    next
      case und: False
      with False have "s = t" by simp
      moreover from inv und have "edge_weight g a b = edge_weight g b a" for a b
        by (simp add: graph_inv_store)
      ultimately have "edge_weight (drop_edge g s t) a b = edge_weight (drop_edge g s t) b a"
        for a b
        unfolding drop_edge_weight [OF st]
        by (cases "a = s"; cases "b = s"; simp)
      with st1 show ?thesis by (simp add: graph_inv_store)
    qed
    with r True show ?thesis
      by (intro exI [of _ True] exI [of _ "drop_edge g s t"]) simp
  next
    case und: True
    with inv have sym: "\<And>a b. edge_weight g a b = edge_weight g b a"
      by (simp add: graph_inv_store)
    from True sym have rev: "edge_weight g t s \<noteq> None" by simp
    with und have rev1: "edge_weight (drop_edge g s t) t s \<noteq> None"
      by (auto simp: drop_edge_weight [OF st])
    then have r: "remove_edge g s t = Inr (True, drop_edge (drop_edge g s t) t s)"
      using True und by (simp add: remove_edge_drop_edge Let_def)
    have st2: "store_inv (drop_edge (drop_edge g s t) t s)"
      by (rule drop_edge_store_inv [OF st1 rev1])
    have "edge_weight (drop_edge (drop_edge g s t) t s) a b
        = edge_weight (drop_edge (drop_edge g s t) t s) b a" for a b
    proof -
      have "edge_weight (drop_edge (drop_edge g s t) t s) a b =
         (if (a = s \<and> b = t) \<or> (a = t \<and> b = s) then None else edge_weight g a b)"
        unfolding drop_edge_weight [OF st1] drop_edge_weight [OF st]
        by (cases "a = s"; cases "b = t"; cases "a = t"; cases "b = s"; simp)
      moreover have "edge_weight (drop_edge (drop_edge g s t) t s) b a =
         (if (a = s \<and> b = t) \<or> (a = t \<and> b = s) then None else edge_weight g b a)"
        unfolding drop_edge_weight [OF st1] drop_edge_weight [OF st]
        by (cases "a = s"; cases "b = t"; cases "a = t"; cases "b = s"; simp)
      ultimately show ?thesis by (simp only: sym [of a b])
    qed
    with st2 have "graph_inv (drop_edge (drop_edge g s t) t s)"
      by (simp add: graph_inv_store)
    with r True show ?thesis
      by (intro exI [of _ True] exI [of _ "drop_edge (drop_edge g s t) t s"]) simp
  qed
qed

lemma apply_op_inv:
  assumes "graph_inv g"
  shows "\<exists>g'. apply_op g x = Inr g' \<and> graph_inv g' \<and> directed g' = directed g"
proof (cases x)
  case (AddNode n)
  with assms show ?thesis by (simp add: add_node_inv)
next
  case (AddEdge s t w)
  with assms show ?thesis by (simp add: add_edge_inv)
next
  case (RemoveEdge s t)
  from remove_edge_inv [OF assms, of s t] obtain ok g'
    where "remove_edge g s t = Inr (ok, g')" "graph_inv g'" "directed g' = directed g"
    by blast
  with RemoveEdge show ?thesis by simp
qed

lemma apply_ops_inv:
  "graph_inv g \<Longrightarrow> \<exists>g'. apply_ops g xs = Inr g' \<and> graph_inv g' \<and> directed g' = directed g"
proof (induction xs arbitrary: g)
  case Nil
  then show ?case by simp
next
  case (Cons x xs)
  from apply_op_inv [OF Cons.prems, of x] obtain g1
    where 1: "apply_op g x = Inr g1" "graph_inv g1" "directed g1 = directed g" by blast
  from Cons.IH [OF 1(2)] obtain g2
    where 2: "apply_ops g1 xs = Inr g2" "graph_inv g2" "directed g2 = directed g1" by blast
  from 1 2 show ?case by simp
qed

text \<open>
  Claim C8.  Starting from an empty graph, no sequence of \<open>add_node\<close>, \<open>add_edge\<close> and
  \<open>remove_edge\<close> calls raises, and afterwards the edge counter equals the number of stored
  (source, target) pairs.  A further \<open>add_edge\<close> stores the new weight under the pair (and
  under the mirrored pair when the graph is undirected and source and target differ),
  adds one to the counter for each of these pairs that was not stored before and nothing
  for a pair that was, and keeps the counter equal to the number of stored pairs.
\<close>

theorem edge_count_matches_stored_pairs:
  "\<exists>g. apply_ops (new_graph d) ops = Inr g
       \<and> directed g = d
       \<and> edge_count g = int (stored_pairs g)
       \<and> edge_weight (add_edge g s t w) s t = Some w
       \<and> (\<not> d \<and> s \<noteq> t \<longrightarrow> edge_weight (add_edge g s t w) t s = Some w)
       \<and> edge_count (add_edge g s t w) =
           edge_count g + (if edge_weight g s t = None then 1 else 0)
             + (if \<not> d \<and> s \<noteq> t \<and> edge_weight g t s = None then 1 else 0)
       \<and> edge_count (add_edge g s t w) = int (stored_pairs (add_edge g s t w))"
proof -
  from apply_ops_inv [OF new_graph_inv, of d ops] obtain g
    where g: "apply_ops (new_graph d) ops = Inr g" "graph_inv g" "directed g = directed (new_graph d)"
    by blast
  then have d: "directed g = d" by (simp add: new_graph_def)
  from g(2) have c: "edge_count g = int (stored_pairs g)" by (simp add: graph_inv_def)
  from add_edge_inv [OF g(2), of s t w]
  have c': "edge_count (add_edge g s t w) = int (stored_pairs (add_edge g s t w))"
    by (simp add: graph_inv_def)
  show ?thesis
    using g(1) d c c' by (simp add: add_edge_weight add_edge_count)
qed

theorem edge_count_matches_stored_pairs_witness:
  "(\<not> False \<and> ''a'' \<noteq> ''b'')
   \<and> (\<exists>g. apply_ops (new_graph False)
              [AddEdge ''a'' ''b'' 1, AddNode ''c'', AddEdge ''b'' ''a'' 2, RemoveEdge ''a'' ''b'',
               AddEdge ''c'' ''c'' 4] = Inr g
          \<and> edge_count g = int (stored_pairs g)
          \<and> edge_weight (add_edge g ''a'' ''b'' 3) ''b'' ''a'' = Some 3)"
  using edge_count_matches_stored_pairs
    [of False "[AddEdge ''a'' ''b'' 1, AddNode ''c'', AddEdge ''b'' ''a'' 2, RemoveEdge ''a'' ''b'',
               AddEdge ''c'' ''c'' 4]" "''a''" "''b''" 3]
  by auto

section \<open>The engine on concrete inputs\<close>

text \<open>
  Claim C1 (the returned transition matrix is column-stochastic) fails on the code.  For
  the adjacency matrix with the single entry \<open>A[0][1] = 1\<close>, column 0 sums to zero, so
  index 0 is dangling.  Both strategies then overwrite row 0 instead of column 0: the
  matrix returned by \<open>build_transition_matrix\<close> has the rows \<open>[1/2, 1/2]\<close> and \<open>[0, 0]\<close>,
  and each of its columns sums to \<open>1/2\<close>.
\<close>

theorem build_transition_matrix_not_column_stochastic:
  "build_transition_matrix default_engine [[0, 1], [0, 0]] None
     = Inr ([[1 / 2, 1 / 2], [0, 0]],
            default_engine\<lparr>cached_transition_matrix := Some [[1 / 2, 1 / 2], [0, 0]]\<rparr>)
   \<and> map_sum id fst
        (build_transition_matrix
           (default_engine\<lparr>dangling_strategy := TeleportDanglingStrategy None\<rparr>)
           [[0, 1], [0, 0]] None)
     = Inr [[1 / 2, 1 / 2], [0, 0]]
   \<and> col_sums [[1 / 2, 1 / 2], [0, 0]] = [1 / 2, 1 / 2]
   \<and> \<not> column_stochastic [[1 / 2, 1 / 2], [0, 0]]"
  by code_simp

text \<open>
  Claim C2 (both personalization strategies return a probability distribution and fall
  back to uniform when the total mass is zero) fails on the code for the suspicion-based
  strategy.  For the single node \<open>a\<close> with base weight \<open>0\<close> it returns the vector \<open>[0]\<close>,
  whose entries sum to \<open>0\<close>; the transaction-volume strategy returns the uniform vector
  \<open>[1]\<close> on the same input.
\<close>

theorem suspicion_based_zero_mass_not_uniform:
  "strategy_personalization_vector (new_suspicion_based 5) [''a''] None (Some [(''a'', 0)]) = [0]
   \<and> sum_list (strategy_personalization_vector (new_suspicion_based 5) [''a''] None
                 (Some [(''a'', 0)])) = 0
   \<and> strategy_personalization_vector TransactionVolumePersonalization [''a''] None
        (Some [(''a'', 0)]) = ones_over_n 1"
  by code_simp

text \<open>
  Claim C3 (the scores returned by \<open>compute_sparse_page_rank\<close> sum to one) fails on the
  code.  For the single isolated node \<open>a\<close> with base weight \<open>0\<close> and the default engine,
  the personalization vector is \<open>[0]\<close> and the computation returns the score \<open>0\<close> for \<open>a\<close>.
\<close>

theorem sparse_page_rank_scores_sum_to_zero:
  "scores_of (compute_sparse_page_rank default_engine [''a''] [[0]] None None (Some [(''a'', 0)]))
     = Inr [(''a'', 0)]
   \<and> sum_list (map snd [(''a'', 0 :: real)]) \<noteq> 1"
  by code_simp

text \<open>
  Claim C5 (both paths record \<open>converged = false\<close> and \<open>iterations_performed =
  max_iterations\<close> when the loop is exhausted) fails on the code for the dense path.  With
  \<open>max_iterations = 1\<close> and tolerance \<open>1e-12\<close> on the two-node cycle with suspicion \<open>1\<close> on
  \<open>a\<close>, the dense path returns its scores and leaves the diagnostics of the fresh engine
  untouched: \<open>iterations_performed\<close> is still \<open>0\<close>.  The sparse path records \<open>1\<close> on the
  same graph.
\<close>

theorem dense_exhaustion_not_recorded:
  "new_engine (85 / 100) 1 (1 / 10 ^ 12) UniformDanglingStrategy (new_suspicion_based 5)
     = Inr strict_one_step_engine
   \<and> (case compute_page_rank strict_one_step_engine two_cycle_arg (Some [(''a'', 1)]) of
        Inl err \<Rightarrow> False
      | Inr (scores, e') \<Rightarrow>
          scores = [(''a'', 17 / 20), (''b'', 3 / 20)]
          \<and> get_convergence_info e' = (False, 0, 17 / 20, 1 / 10 ^ 12))
   \<and> (case compute_sparse_page_rank strict_one_step_engine [''a'', ''b''] [[0, 1], [1, 0]]
             None (Some [(''a'', 1)]) None of
        Inl err \<Rightarrow> False
      | Inr (scores, e') \<Rightarrow> get_convergence_info e' = (False, 1, 17 / 20, 1 / 10 ^ 12))"
  by code_simp

text \<open>
  Claim C10.  \<open>SparseGraph\<close> has no attribute \<open>get_normalized_matrix\<close>, and the dense entry
  point raises \<open>AttributeError\<close> on every \<open>SparseGraph\<close>, whatever the engine and the
  suspicion mapping, before it computes anything.
\<close>

theorem dense_path_fails_on_sparse_graph:
  "''get_normalized_matrix'' \<notin> set sparse_graph_attributes
   \<and> compute_page_rank e (sparse_graph_arg g) suspicious_nodes = Inl AttributeError"
  by (simp add: sparse_graph_attributes_def compute_page_rank_def sparse_graph_arg_def)

section \<open>The power iteration\<close>

subsection \<open>The dense recurrence and its loop\<close>

lemma recurrence_pointwise:
  "map2 (+) (map ((*) a) xs) (map ((*) (b + a * d)) ys)
     = map2 (+) (map ((*) a) (map2 (+) xs (map ((*) d) ys))) (map ((*) b) (ys :: real list))"
proof (induction xs arbitrary: ys)
  case Nil
  then show ?case by simp
next
  case (Cons x xs)
  then show ?case by (cases ys) (simp_all add: algebra_simps)
qed

lemma dense_step_recurrence:
  "dense_step \<alpha> M dangling_mask p r
     = vec_add (scale (1 - \<alpha>)
                  (vec_add (mat_vec M r) (scale (sum_list (masked r dangling_mask)) p)))
               (scale \<alpha> p)"
  unfolding dense_step_def Let_def vec_add_def scale_def
  by (rule recurrence_pointwise)

lemma dense_iterate_shift:
  "dense_iterate \<alpha> M mk p (Suc t) r0 = dense_iterate \<alpha> M mk p t (dense_step \<alpha> M mk p r0)"
  by (simp add: dense_iterate_def funpow_swap1)

lemma dense_residual_shift:
  "dense_residual \<alpha> M mk p (Suc t) r0 = dense_residual \<alpha> M mk p t (dense_step \<alpha> M mk p r0)"
  by (simp only: dense_residual_def dense_iterate_shift)

lemma dense_residual_0:
  "dense_residual \<alpha> M mk p 0 r0 = norm1 (vec_sub (dense_step \<alpha> M mk p r0) r0)"
  by (simp add: dense_residual_def dense_iterate_def)

lemma dense_loop_exhausted:
  "(\<And>t. t < k \<Longrightarrow> \<not> dense_residual \<alpha> M mk p t r0 < tol)
     \<Longrightarrow> dense_loop \<alpha> tol M mk p k i r0 = (dense_iterate \<alpha> M mk p k r0, None)"
proof (induction k arbitrary: i r0)
  case 0
  then show ?case by (simp add: dense_iterate_def)
next
  case (Suc k)
  from Suc.prems [of 0] have first: "\<not> norm1 (vec_sub (dense_step \<alpha> M mk p r0) r0) < tol"
    by (simp add: dense_residual_0)
  have "dense_loop \<alpha> tol M mk p k (i + 1) (dense_step \<alpha> M mk p r0)
      = (dense_iterate \<alpha> M mk p k (dense_step \<alpha> M mk p r0), None)"
  proof (rule Suc.IH)
    fix t assume "t < k"
    then have "\<not> dense_residual \<alpha> M mk p (Suc t) r0 < tol" using Suc.prems [of "Suc t"] by simp
    then show "\<not> dense_residual \<alpha> M mk p t (dense_step \<alpha> M mk p r0) < tol"
      by (simp add: dense_residual_shift)
  qed
  with first show ?case by (simp add: Let_def dense_iterate_shift)
qed

lemma dense_loop_breaks:
  "t0 < k \<Longrightarrow> dense_residual \<alpha> M mk p t0 r0 < tol
     \<Longrightarrow> (\<And>t. t < t0 \<Longrightarrow> \<not> dense_residual \<alpha> M mk p t r0 < tol)
     \<Longrightarrow> dense_loop \<alpha> tol M mk p k i r0
           = (dense_iterate \<alpha> M mk p (Suc t0) r0, Some (i + int t0 + 1))"
proof (induction k arbitrary: i r0 t0)
  case 0
  then show ?case by simp
next
  case (Suc k)
  show ?case
  proof (cases t0)
    case 0
    with Suc.prems(2) have "norm1 (vec_sub (dense_step \<alpha> M mk p r0) r0) < tol"
      by (simp add: dense_residual_0)
    with 0 show ?thesis by (simp add: Let_def dense_iterate_def)
  next
    case (Suc t1)
    from Suc.prems(3) [of 0] Suc
    have first: "\<not> norm1 (vec_sub (dense_step \<alpha> M mk p r0) r0) < tol"
      by (simp add: dense_residual_0)
    have "dense_loop \<alpha> tol M mk p k (i + 1) (dense_step \<alpha> M mk p r0)
        = (dense_iterate \<alpha> M mk p (Suc t1) (dense_step \<alpha> M mk p r0), Some (i + 1 + int t1 + 1))"
    proof (rule Suc.IH)
      show "t1 < k" using Suc.prems(1) Suc by simp
      show "dense_residual \<alpha> M mk p t1 (dense_step \<alpha> M mk p r0) < tol"
        using Suc.prems(2) Suc by (simp add: dense_residual_shift)
      fix t assume "t < t1"
      then have "\<not> dense_residual \<alpha> M mk p (Suc t) r0 < tol"
        using Suc.prems(3) [of "Suc t"] Suc by simp
      then show "\<not> dense_residual \<alpha> M mk p t (dense_step \<alpha> M mk p r0) < tol"
        by (simp add: dense_residual_shift)
    qed
    with first Suc show ?thesis
      by (simp add: Let_def dense_iterate_shift [of _ _ _ _ "Suc t1"])
  qed
qed

lemma dense_loop_break_iff:
  "snd (dense_loop \<alpha> tol M mk p k i r0) \<noteq> None
     \<longleftrightarrow> (\<exists>t<k. dense_residual \<alpha> M mk p t r0 < tol)"
proof
  assume "snd (dense_loop \<alpha> tol M mk p k i r0) \<noteq> None"
  then show "\<exists>t<k. dense_residual \<alpha> M mk p t r0 < tol"
    using dense_loop_exhausted [of k \<alpha> M mk p r0 tol i] by fastforce
next
  assume "\<exists>t<k. dense_residual \<alpha> M mk p t r0 < tol"
  then obtain t where t: "t < k" "dense_residual \<alpha> M mk p t r0 < tol" by blast
  define t0 where "t0 = (LEAST t. dense_residual \<alpha> M mk p t r0 < tol)"
  have 1: "dense_residual \<alpha> M mk p t0 r0 < tol"
    unfolding t0_def using t(2) by (rule LeastI)
  have 2: "t0 \<le> t" unfolding t0_def using t(2) by (rule Least_le)
  have 3: "\<not> dense_residual \<alpha> M mk p s r0 < tol" if "s < t0" for s
    using that not_less_Least unfolding t0_def by blast
  from 2 t(1) have "t0 < k" by simp
  from dense_loop_breaks [OF this 1 3] show "snd (dense_loop \<alpha> tol M mk p k i r0) \<noteq> None"
    by simp
qed

text \<open>
  Claim C7.  One pass through the body of the dense loop computes
  \<open>(1 - \<alpha>) (M r + dangling_sum p) + \<alpha> p\<close>, where \<open>dangling_sum\<close> is the sum of the
  entries of \<open>r\<close> at the dangling indices.  The loop leaves through \<open>break\<close> exactly when
  some residual \<open>\<parallel>r\<^sub>t\<^sub>+\<^sub>1 - r\<^sub>t\<parallel>\<^sub>1\<close> with \<open>t\<close> below the iteration budget is below the
  tolerance: it then stops at the first such \<open>t\<close>, returns \<open>r\<^sub>t\<^sub>+\<^sub>1\<close> and reports \<open>t + 1\<close>
  iterations; otherwise it runs through the whole budget and returns the last iterate.
\<close>

theorem dense_loop_recurrence_and_convergence:
  "dense_step \<alpha> M dangling_mask p r
     = vec_add (scale (1 - \<alpha>)
                  (vec_add (mat_vec M r) (scale (sum_list (masked r dangling_mask)) p)))
               (scale \<alpha> p)
   \<and> (snd (dense_loop \<alpha> tol M dangling_mask p k i r) \<noteq> None
        \<longleftrightarrow> (\<exists>t<k. dense_residual \<alpha> M dangling_mask p t r < tol))
   \<and> ((\<forall>t<k. \<not> dense_residual \<alpha> M dangling_mask p t r < tol)
        \<longrightarrow> dense_loop \<alpha> tol M dangling_mask p k i r
              = (dense_iterate \<alpha> M dangling_mask p k r, None))
   \<and> (\<forall>t0<k. dense_residual \<alpha> M dangling_mask p t0 r < tol
                \<and> (\<forall>t<t0. \<not> dense_residual \<alpha> M dangling_mask p t r < tol)
        \<longrightarrow> dense_loop \<alpha> tol M dangling_mask p k i r
              = (dense_iterate \<alpha> M dangling_mask p (Suc t0) r, Some (i + int t0 + 1)))"
proof (intro conjI allI impI)
  show "dense_step \<alpha> M dangling_mask p r
     = vec_add (scale (1 - \<alpha>)
                  (vec_add (mat_vec M r) (scale (sum_list (masked r dangling_mask)) p)))
               (scale \<alpha> p)"
    by (rule dense_step_recurrence)
  show "snd (dense_loop \<alpha> tol M dangling_mask p k i r) \<noteq> None
        \<longleftrightarrow> (\<exists>t<k. dense_residual \<alpha> M dangling_mask p t r < tol)"
    by (rule dense_loop_break_iff)
next
  assume "\<forall>t<k. \<not> dense_residual \<alpha> M dangling_mask p t r < tol"
  then show "dense_loop \<alpha> tol M dangling_mask p k i r
              = (dense_iterate \<alpha> M dangling_mask p k r, None)"
    by (intro dense_loop_exhausted) blast
next
  fix t0
  assume "t0 < k"
    and "dense_residual \<alpha> M dangling_mask p t0 r < tol
         \<and> (\<forall>t<t0. \<not> dense_residual \<alpha> M dangling_mask p t r < tol)"
  then show "dense_loop \<alpha> tol M dangling_mask p k i r
      = (dense_iterate \<alpha> M dangling_mask p (Suc t0) r, Some (i + int t0 + 1))"
    by (intro dense_loop_breaks) blast+
qed

theorem dense_loop_recurrence_and_convergence_witness:
  "(1 :: nat) < 3
   \<and> dense_residual (17 / 20) [[0, 1], [1, 0]] [False, False] [1, 0] 1 [1 / 2, 1 / 2] < 1 / 4
   \<and> \<not> dense_residual (17 / 20) [[0, 1], [1, 0]] [False, False] [1, 0] 0 [1 / 2, 1 / 2] < 1 / 4
   \<and> dense_loop (17 / 20) (1 / 4) [[0, 1], [1, 0]] [False, False] [1, 0] 3 0 [1 / 2, 1 / 2]
       = (dense_iterate (17 / 20) [[0, 1], [1, 0]] [False, False] [1, 0] 2 [1 / 2, 1 / 2], Some 2)"
proof -
  have h1: "dense_residual (17 / 20) [[0, 1], [1, 0]] [False, False] [1, 0] 1 [1 / 2, 1 / 2] < 1 / 4"
    by code_simp
  have h0: "\<not> dense_residual (17 / 20) [[0, 1], [1, 0]] [False, False] [1, 0] 0 [1 / 2, 1 / 2]
              < 1 / 4"
    by code_simp
  have h2: "\<forall>t<1. \<not> dense_residual (17 / 20) [[0, 1], [1, 0]] [False, False] [1, 0] t [1 / 2, 1 / 2]
                    < 1 / 4"
    using h0 by simp
  from dense_loop_recurrence_and_convergence
         [of "17 / 20" "[[0, 1], [1, 0]]" "[False, False]" "[1, 0]" "[1 / 2, 1 / 2]" "1 / 4" 3 0]
  have "\<forall>t0<3. dense_residual (17 / 20) [[0, 1], [1, 0]] [False, False] [1, 0] t0 [1 / 2, 1 / 2]
                   < 1 / 4
                \<and> (\<forall>t<t0. \<not> dense_residual (17 / 20) [[0, 1], [1, 0]] [False, False] [1, 0] t
                                 [1 / 2, 1 / 2] < 1 / 4)
        \<longrightarrow> dense_loop (17 / 20) (1 / 4) [[0, 1], [1, 0]] [False, False] [1, 0] 3 0 [1 / 2, 1 / 2]
              = (dense_iterate (17 / 20) [[0, 1], [1, 0]] [False, False] [1, 0] (Suc t0)
                   [1 / 2, 1 / 2], Some (0 + int t0 + 1))"
    by blast
  then have "dense_loop (17 / 20) (1 / 4) [[0, 1], [1, 0]] [False, False] [1, 0] 3 0 [1 / 2, 1 / 2]
       = (dense_iterate (17 / 20) [[0, 1], [1, 0]] [False, False] [1, 0] 2 [1 / 2, 1 / 2], Some 2)"
    using h0 h1 h2 by (elim allE [of _ 1]) (simp add: numeral_2_eq_2)
  with h0 h1 show ?thesis by simp
qed

subsection \<open>The sparse step\<close>

lemma fold_vec_add_length:
  "\<forall>j\<in>set js. length (f j) = length z
     \<Longrightarrow> length (fold (\<lambda>j acc. vec_add acc (f j)) js z) = length z"
  by (induction js arbitrary: z) (simp_all add: vec_add_def)

lemma fold_vec_add_nth:
  "\<forall>j\<in>set js. length (f j) = length z \<Longrightarrow> i < length z
     \<Longrightarrow> fold (\<lambda>j acc. vec_add acc (f j)) js z ! i = z ! i + (\<Sum>j\<leftarrow>js. f j ! i)"
proof (induction js arbitrary: z)
  case Nil
  then show ?case by simp
next
  case (Cons j js)
  have len: "length (vec_add z (f j)) = length z"
    using Cons.prems(1) by (simp add: vec_add_def)
  have "fold (\<lambda>j acc. vec_add acc (f j)) js (vec_add z (f j)) ! i
      = vec_add z (f j) ! i + (\<Sum>j\<leftarrow>js. f j ! i)"
    using Cons.prems len by (intro Cons.IH) simp_all
  moreover have "vec_add z (f j) ! i = z ! i + f j ! i"
    using Cons.prems by (simp add: vec_add_def)
  ultimately show ?case by simp
qed

lemma map2_as_index:
  "length xs = length ys \<Longrightarrow> map2 f xs ys = map (\<lambda>j. f (xs ! j) (ys ! j)) [0..<length xs]"
  by (rule nth_equalityI) simp_all

lemma masked_sum_list:
  "sum_list (map fst (filter snd ps)) = (\<Sum>(x, m)\<leftarrow>ps. if m then x else (0::real))"
  by (induction ps) auto

lemma masked_as_index:
  assumes "length r = length mk"
  shows "sum_list (masked r mk) = (\<Sum>j\<leftarrow>[0..<length r]. if mk ! j then r ! j else 0)"
proof -
  have "sum_list (masked r mk) = sum_list (map2 (\<lambda>x m. if m then x else 0) r mk)"
    by (simp add: masked_def masked_sum_list)
  also have "\<dots> = (\<Sum>j\<leftarrow>[0..<length r]. if mk ! j then r ! j else 0)"
    by (simp only: map2_as_index [OF assms])
  finally show ?thesis .
qed

lemma where_true_empty: "\<not> np_any fl \<Longrightarrow> where_true fl = []"
proof -
  assume a: "\<not> np_any fl"
  have "\<not> fl ! i" if "i < length fl" for i
  proof
    assume "fl ! i"
    with that have "True \<in> set fl" by (metis nth_mem)
    with a show False by (simp add: np_any_def)
  qed
  then show ?thesis by (simp add: where_true_def filter_empty_conv)
qed

lemma ncols_square: "\<forall>row\<in>set W. length row = length W \<Longrightarrow> ncols W = length W"
  by (cases W) (simp_all add: ncols_def)

lemma vec_add_nth: "i < length u \<Longrightarrow> i < length v \<Longrightarrow> vec_add u v ! i = u ! i + v ! i"
  by (simp add: vec_add_def)

lemma scale_nth: "i < length v \<Longrightarrow> scale c v ! i = c * v ! i"
  by (simp add: scale_def)

lemma length_vec_add: "length (vec_add u v) = min (length u) (length v)"
  by (simp add: vec_add_def)

lemma length_scale: "length (scale c v) = length v"
  by (simp add: scale_def)

lemma length_mat_vec: "length (mat_vec M v) = length M"
  by (simp add: mat_vec_def)

lemma length_normalize_columns: "length (normalize_columns W out) = length W"
  by (simp add: normalize_columns_def)

lemma guarded_fold: "(if np_any fl then fold f (where_true fl) z else z) = fold f (where_true fl) z"
  by (simp add: where_true_empty)

lemma sparse_step_mass:
  assumes sq: "\<forall>row\<in>set W. length row = length W"
    and lp: "length p = length W" and lr: "length r = length W"
  shows "sparse_step \<alpha> (length W) W (col_sums W) (map (\<lambda>x. x = 0) (col_sums W))
           (if np_any (map (\<lambda>x. x = 0) (col_sums W)) then p else zeros (length W)) p r
       = vec_add (scale (1 - \<alpha>)
                    (vec_add (mat_vec (normalize_columns W (col_sums W)) r)
                       (scale (sum_list (masked r (map (\<lambda>x. x = 0) (col_sums W)))) p)))
                 (scale \<alpha> p)"
proof -
  let ?n = "length W"
  let ?out = "col_sums W"
  let ?mk = "map (\<lambda>x. x = 0) ?out"
  let ?nd = "map (\<lambda>x. x > 0) ?out"
  let ?dt = "if np_any ?mk then p else zeros ?n"
  let ?f = "\<lambda>j. scale (r ! j) (vec_div (column W j) (?out ! j))"
  let ?g = "\<lambda>j. scale (r ! j) ?dt"
  let ?g' = "\<lambda>j. scale (r ! j) p"
  let ?rM1 = "fold (\<lambda>j rM. vec_add rM (?f j)) (where_true ?nd) (zeros ?n)"
  let ?rM2 = "fold (\<lambda>j rM. vec_add rM (?g j)) (where_true ?mk) ?rM1"
  let ?T = "normalize_columns W ?out"
  let ?ds = "sum_list (masked r ?mk)"
  have lout: "length ?out = ?n" by (simp add: col_sums_def ncols_square [OF sq])
  have step: "sparse_step \<alpha> ?n W ?out ?mk ?dt p r = vec_add (scale (1 - \<alpha>) ?rM2) (scale \<alpha> p)"
    unfolding sparse_step_def Let_def guarded_fold ..
  have g: "fold (\<lambda>j rM. vec_add rM (?g j)) (where_true ?mk) z
         = fold (\<lambda>j rM. vec_add rM (?g' j)) (where_true ?mk) z" for z
    by (cases "np_any ?mk") (simp_all add: where_true_empty)
  have lf: "\<forall>j\<in>set js. length (?f j) = length (zeros ?n)" for js
    by (simp add: scale_def vec_div_def column_def zeros_def)
  have l1: "length ?rM1 = ?n"
    using fold_vec_add_length [OF lf] by (simp add: zeros_def)
  have lg: "\<forall>j\<in>set js. length (?g' j) = length ?rM1" for js
    by (simp only: l1) (simp add: scale_def lp)
  have l2: "length ?rM2 = ?n"
    unfolding g using fold_vec_add_length [OF lg] by (simp add: l1)
  have wt_nd: "where_true ?nd = filter (\<lambda>j. ?out ! j > 0) [0..<?n]"
    by (auto simp: where_true_def lout intro: filter_cong)
  have wt_mk: "where_true ?mk = filter (\<lambda>j. ?out ! j = 0) [0..<?n]"
    by (auto simp: where_true_def lout intro: filter_cong)
  have rM1: "?rM1 ! i = (\<Sum>j\<leftarrow>[0..<?n]. if ?out ! j > 0 then r ! j * (W ! i ! j / ?out ! j) else 0)"
    if "i < ?n" for i
  proof -
    have "?rM1 ! i = zeros ?n ! i + (\<Sum>j\<leftarrow>where_true ?nd. ?f j ! i)"
      using that by (intro fold_vec_add_nth [OF lf]) (simp add: zeros_def)
    also have "\<dots> = (\<Sum>j\<leftarrow>where_true ?nd. r ! j * (W ! i ! j / ?out ! j))"
      using that by (simp add: zeros_def scale_def vec_div_def column_def)
    also have "\<dots> = (\<Sum>j\<leftarrow>[0..<?n]. if ?out ! j > 0 then r ! j * (W ! i ! j / ?out ! j) else 0)"
      unfolding wt_nd by (rule sum_list_map_filter')
    finally show ?thesis .
  qed
  have Tr: "mat_vec ?T r ! i
      = (\<Sum>j\<leftarrow>[0..<?n]. if ?out ! j > 0 then r ! j * (W ! i ! j / ?out ! j) else 0)"
    if "i < ?n" for i
  proof -
    have row: "?T ! i = map (\<lambda>j. if ?out ! j > 0 then W ! i ! j / ?out ! j else 0) [0..<?n]"
      using that by (simp add: normalize_columns_def)
    have "mat_vec ?T r ! i = sum_list (map2 (*) (?T ! i) r)"
      using that by (simp add: mat_vec_def normalize_columns_def)
    also have "\<dots> = (\<Sum>j\<leftarrow>[0..<?n]. (?T ! i) ! j * r ! j)"
      by (subst map2_as_index) (simp_all add: row lr)
    also have "\<dots> = (\<Sum>j\<leftarrow>[0..<?n]. if ?out ! j > 0 then r ! j * (W ! i ! j / ?out ! j) else 0)"
      by (rule arg_cong [where f = sum_list], rule map_cong) (auto simp: row)
    finally show ?thesis .
  qed
  have ds: "?ds = (\<Sum>j\<leftarrow>[0..<?n]. if ?out ! j = 0 then r ! j else 0)"
  proof -
    have "?ds = (\<Sum>j\<leftarrow>[0..<length r]. if ?mk ! j then r ! j else 0)"
      by (rule masked_as_index) (simp add: lr lout)
    also have "\<dots> = (\<Sum>j\<leftarrow>[0..<?n]. if ?out ! j = 0 then r ! j else 0)"
      unfolding lr by (rule arg_cong [where f = sum_list], rule map_cong) (auto simp: lout)
    finally show ?thesis .
  qed
  have rM2: "?rM2 ! i = ?rM1 ! i + ?ds * p ! i" if "i < ?n" for i
  proof -
    have "?rM2 ! i = ?rM1 ! i + (\<Sum>j\<leftarrow>where_true ?mk. ?g' j ! i)"
      unfolding g using that by (intro fold_vec_add_nth [OF lg]) (simp add: l1)
    also have "(\<Sum>j\<leftarrow>where_true ?mk. ?g' j ! i) = (\<Sum>j\<leftarrow>where_true ?mk. r ! j * p ! i)"
      using that by (simp add: scale_def lp)
    also have "\<dots> = (\<Sum>j\<leftarrow>[0..<?n]. if ?out ! j = 0 then r ! j * p ! i else 0)"
      unfolding wt_mk by (rule sum_list_map_filter')
    also have "\<dots> = (\<Sum>j\<leftarrow>[0..<?n]. (if ?out ! j = 0 then r ! j else 0) * p ! i)"
      by (rule arg_cong [where f = sum_list], rule map_cong) auto
    also have "\<dots> = ?ds * p ! i"
      unfolding ds by (rule sum_list_mult_const)
    finally show ?thesis .
  qed
  have "?rM2 = vec_add (mat_vec ?T r) (scale ?ds p)"
  proof (rule nth_equalityI)
    show "length ?rM2 = length (vec_add (mat_vec ?T r) (scale ?ds p))"
      unfolding l2 length_vec_add length_scale length_mat_vec length_normalize_columns lp
      by simp
    fix i assume "i < length ?rM2"
    then have i: "i < ?n" unfolding l2 .
    have "vec_add (mat_vec ?T r) (scale ?ds p) ! i = mat_vec ?T r ! i + ?ds * p ! i"
      using i by (simp only: vec_add_nth scale_nth length_scale length_mat_vec
          length_normalize_columns lp)
    also have "\<dots> = ?rM2 ! i"
      by (simp only: rM2 [OF i] rM1 [OF i] Tr [OF i])
    finally show "?rM2 ! i = vec_add (mat_vec ?T r) (scale ?ds p) ! i" by (rule sym)
  qed
  with step show ?thesis by simp
qed

text \<open>
  Claim C4, as stated (both paths return the same score mapping on identical inputs),
  fails: on two nodes without edges and suspicion \<open>1\<close> on \<open>a\<close>, the dense path returns
  the scores \<open>1\<close> and \<open>0\<close> and the sparse path \<open>5/6\<close> and \<open>1/6\<close>, with the same default
  engine.  The dense path normalises the raw suspicion scores into its teleport vector
  and starts from it; the sparse path asks the personalization strategy for the vector
  and starts from the uniform one.
\<close>

theorem dense_and_sparse_scores_differ:
  "scores_of (compute_page_rank default_engine isolated_pair_arg (Some [(''a'', 1)]))
     = Inr [(''a'', 1), (''b'', 0)]
   \<and> scores_of (compute_sparse_page_rank default_engine [''a'', ''b''] [[0, 0], [0, 0]] None
           (Some [(''a'', 1)]) None)
     = Inr [(''a'', 5 / 6), (''b'', 1 / 6)]
   \<and> scores_of (compute_page_rank default_engine isolated_pair_arg (Some [(''a'', 1)]))
     \<noteq> scores_of (compute_sparse_page_rank default_engine [''a'', ''b''] [[0, 0], [0, 0]] None
           (Some [(''a'', 1)]) None)"
  by code_simp

text \<open>
  Claim C4, amended.  For a square weighted adjacency matrix \<open>W\<close>, a teleport vector \<open>p\<close>
  and a current iterate \<open>r\<close> of the same dimension, one pass through the body of the
  sparse loop and one pass through the body of the dense loop on the column-normalised
  matrix of \<open>W\<close> and its dangling mask compute the same next iterate, namely
  \<open>(1 - \<alpha>) (M r + dangling_sum p) + \<alpha> p\<close>.
\<close>

theorem dense_and_sparse_steps_agree:
  assumes "\<forall>row\<in>set W. length row = length W"
    and "length p = length W" and "length r = length W"
  shows "sparse_step \<alpha> (length W) W (col_sums W) (map (\<lambda>x. x = 0) (col_sums W))
           (if np_any (map (\<lambda>x. x = 0) (col_sums W)) then p else zeros (length W)) p r
       = dense_step \<alpha> (normalize_columns W (col_sums W)) (map (\<lambda>x. x = 0) (col_sums W)) p r
     \<and> dense_step \<alpha> (normalize_columns W (col_sums W)) (map (\<lambda>x. x = 0) (col_sums W)) p r
       = vec_add (scale (1 - \<alpha>)
                    (vec_add (mat_vec (normalize_columns W (col_sums W)) r)
                       (scale (sum_list (masked r (map (\<lambda>x. x = 0) (col_sums W)))) p)))
                 (scale \<alpha> p)"
  using sparse_step_mass [OF assms] by (simp add: dense_step_recurrence)

theorem dense_and_sparse_steps_agree_witness:
  "length [0, 1 :: real] = length [[0, 1], [0, 0 :: real]]
   \<and> length [0, 0 :: real] = length [[0, 1], [0, 0 :: real]]
   \<and> length [5 / 6, 1 / 6 :: real] = length [[0, 1], [0, 0 :: real]]
   \<and> length [1 / 2, 1 / 2 :: real] = length [[0, 1], [0, 0 :: real]]
   \<and> sparse_step (17 / 20) (length [[0, 1], [0, 0 :: real]]) [[0, 1], [0, 0]]
         (col_sums [[0, 1], [0, 0]]) (map (\<lambda>x. x = 0) (col_sums [[0, 1], [0, 0]]))
         (if np_any (map (\<lambda>x. x = 0) (col_sums [[0, 1], [0, 0]])) then [5 / 6, 1 / 6]
          else zeros (length [[0, 1], [0, 0 :: real]])) [5 / 6, 1 / 6] [1 / 2, 1 / 2]
       = dense_step (17 / 20) (normalize_columns [[0, 1], [0, 0]] (col_sums [[0, 1], [0, 0]]))
           (map (\<lambda>x. x = 0) (col_sums [[0, 1], [0, 0]])) [5 / 6, 1 / 6] [1 / 2, 1 / 2]"
  using dense_and_sparse_steps_agree
          [of "[[0, 1], [0, 0]]" "[5 / 6, 1 / 6]" "[1 / 2, 1 / 2]" "17 / 20"]
  by simp

subsection \<open>Determinism of the sparse path\<close>

lemma sparse_scores_depend_on_configuration:
  assumes "same_configuration e1 e2"
  shows "scores_of (compute_sparse_page_rank e1 node_ids A W s b)
       = scores_of (compute_sparse_page_rank e2 node_ids A W s b)"
  using assms
  by (simp add: same_configuration_def scores_of_def compute_sparse_page_rank_def
      compute_personalization_vector_def Let_def split: sum.splits prod.splits option.splits)

lemma sparse_run_keeps_configuration:
  assumes "compute_sparse_page_rank e node_ids A W s b = Inr (scores, e')"
  shows "same_configuration e' e"
  using assms
  by (auto simp: same_configuration_def compute_sparse_page_rank_def
      compute_personalization_vector_def Let_def split: sum.splits prod.splits option.splits if_splits)

lemma sparse_rerun:
  assumes "compute_sparse_page_rank e node_ids A W s b = Inr (scores, e')"
  shows "compute_sparse_page_rank e' node_ids A W s b = Inr (scores, e')"
  using assms
  by (auto simp: compute_sparse_page_rank_def
      compute_personalization_vector_def Let_def split: sum.splits prod.splits option.splits if_splits)

text \<open>
  Claim C9.  The scores returned by \<open>compute_sparse_page_rank\<close> depend on the arguments
  and on the configuration of the engine only, not on what the engine has cached: two
  engines with the same configuration return the same scores (or raise the same
  exception), and a second run on the engine left by a first run returns the scores of
  the first run again and leaves the same engine.
\<close>

theorem sparse_page_rank_deterministic:
  "(same_configuration e1 e2
      \<longrightarrow> scores_of (compute_sparse_page_rank e1 node_ids A W s b)
          = scores_of (compute_sparse_page_rank e2 node_ids A W s b))
   \<and> (compute_sparse_page_rank e1 node_ids A W s b = Inr (scores, e1')
      \<longrightarrow> same_configuration e1' e1
          \<and> compute_sparse_page_rank e1' node_ids A W s b = Inr (scores, e1'))"
  using sparse_scores_depend_on_configuration [of e1 e2 node_ids A W s b]
    sparse_run_keeps_configuration [of e1 node_ids A W s b scores e1']
    sparse_rerun [of e1 node_ids A W s b scores e1']
  by blast

theorem sparse_page_rank_deterministic_witness:
  "same_configuration default_engine
     (default_engine\<lparr>cached_page_rank := Some [1, 0], iterations_performed := 7,
        converged := True\<rparr>)
   \<and> compute_sparse_page_rank default_engine [''a'', ''b''] [[0, 0], [0, 0]] None
         (Some [(''a'', 1)]) None
       = Inr ([(''a'', 5 / 6), (''b'', 1 / 6)],
              default_engine\<lparr>cached_personalization_vector := Some [5 / 6, 1 / 6],
                 cached_page_rank := Some [5 / 6, 1 / 6], iterations_performed := 2,
                 converged := True\<rparr>)
   \<and> scores_of (compute_sparse_page_rank default_engine [''a'', ''b''] [[0, 0], [0, 0]] None
         (Some [(''a'', 1)]) None)
       = scores_of (compute_sparse_page_rank
           (default_engine\<lparr>cached_page_rank := Some [1, 0], iterations_performed := 7,
              converged := True\<rparr>) [''a'', ''b''] [[0, 0], [0, 0]] None (Some [(''a'', 1)]) None)
   \<and> compute_sparse_page_rank
         (default_engine\<lparr>cached_personalization_vector := Some [5 / 6, 1 / 6],
            cached_page_rank := Some [5 / 6, 1 / 6], iterations_performed := 2,
            converged := True\<rparr>) [''a'', ''b''] [[0, 0], [0, 0]] None (Some [(''a'', 1)]) None
       = Inr ([(''a'', 5 / 6), (''b'', 1 / 6)],
              default_engine\<lparr>cached_personalization_vector := Some [5 / 6, 1 / 6],
                 cached_page_rank := Some [5 / 6, 1 / 6], iterations_performed := 2,
                 converged := True\<rparr>)"
proof -
  have c: "same_configuration default_engine
     (default_engine\<lparr>cached_page_rank := Some [1, 0], iterations_performed := 7,
        converged := True\<rparr>)"
    by (simp add: same_configuration_def)
  have r: "compute_sparse_page_rank default_engine [''a'', ''b''] [[0, 0], [0, 0]] None
         (Some [(''a'', 1)]) None
       = Inr ([(''a'', 5 / 6), (''b'', 1 / 6)],
              default_engine\<lparr>cached_personalization_vector := Some [5 / 6, 1 / 6],
                 cached_page_rank := Some [5 / 6, 1 / 6], iterations_performed := 2,
                 converged := True\<rparr>)"
    by code_simp
  from c r show ?thesis
    using sparse_page_rank_deterministic
      [of default_engine
          "default_engine\<lparr>cached_page_rank := Some [1, 0], iterations_performed := 7,
             converged := True\<rparr>"
          "[''a'', ''b'']" "[[0, 0], [0, 0]]" None "Some [(''a'', 1)]" None
          "[(''a'', 5 / 6), (''b'', 1 / 6)]"
          "default_engine\<lparr>cached_personalization_vector := Some [5 / 6, 1 / 6],
             cached_page_rank := Some [5 / 6, 1 / 6], iterations_performed := 2,
             converged := True\<rparr>"]
    by blast
qed

section \<open>The text round trip\<close>

lemma universal_newlines_no_CR: "CR \<notin> set s \<Longrightarrow> universal_newlines s = s"
  by (induction s rule: universal_newlines.induct) auto

lemma split_lines_line:
  "LF \<notin> set l \<Longrightarrow> split_lines cur (l @ LF # rest) = (cur @ l @ [LF]) # split_lines [] rest"
  by (induction l arbitrary: cur) auto

lemma split_lines_concat:
  "\<forall>l\<in>set ls. LF \<notin> set l
     \<Longrightarrow> split_lines [] (concat (map (\<lambda>l. l @ [LF]) ls)) = map (\<lambda>l. l @ [LF]) ls"
proof (induction ls)
  case Nil
  then show ?case by simp
next
  case (Cons l ls)
  then have "LF \<notin> set l" by simp
  from split_lines_line [OF this, of "[]" "concat (map (\<lambda>l. l @ [LF]) ls)"] Cons
  show ?case by simp
qed

lemma is_space_LF: "is_space LF"
  by (simp add: is_space_def LF_def)

lemma not_space_comma: "\<not> is_space CHR '',''"
  by (simp add: is_space_def)

lemma strip_line:
  assumes "x \<noteq> []" and "\<not> is_space (hd x)" and "\<not> is_space (last x)"
  shows "strip (x @ [LF]) = x"
proof -
  from assms(1) obtain c cs where x: "x = c # cs" by (cases x) auto
  with assms(2) have 1: "dropWhile is_space (x @ [LF]) = x @ [LF]" by simp
  from assms(1) obtain d ds where r: "rev x = d # ds" by (cases "rev x") auto
  have "last x = hd (rev x)" using assms(1) by (simp add: hd_rev)
  with r assms(3) have "\<not> is_space d" by simp
  then have 2: "dropWhile is_space (rev x) = rev x" unfolding r by simp
  show ?thesis by (simp add: strip_def 1 is_space_LF 2)
qed

lemma split_on_field:
  "sep \<notin> set a \<Longrightarrow> split_on sep (a @ sep # rest) = a # split_on sep rest"
  by (induction a) auto

lemma split_on_last: "sep \<notin> set a \<Longrightarrow> split_on sep a = [a]"
  by (induction a) auto

lemma str_nat_digits: "c \<in> set (str_nat n) \<Longrightarrow> 48 \<le> (of_char c :: nat) \<and> (of_char c :: nat) < 58"
proof (induction n arbitrary: c rule: str_nat.induct)
  case (1 n)
  show ?case
  proof (cases "n < 10")
    case True
    with "1.prems" have "c = char_of (48 + n)" by (subst (asm) str_nat.simps) simp
    with True show ?thesis by simp
  next
    case False
    with "1.prems" have "c \<in> set (str_nat (n div 10)) \<or> c = char_of (48 + n mod 10)"
      by (subst (asm) str_nat.simps) auto
    then show ?thesis
    proof
      assume "c \<in> set (str_nat (n div 10))"
      with "1.IH" False show ?thesis by blast
    next
      assume "c = char_of (48 + n mod 10)"
      moreover have "n mod 10 < 10" by simp
      ultimately show ?thesis by simp
    qed
  qed
qed

lemma str_nat_no_breaks: "LF \<notin> set (str_nat n)" "CR \<notin> set (str_nat n)"
  using str_nat_digits [of LF n] str_nat_digits [of CR n] by (auto simp: LF_def CR_def)

lemma str_int_no_breaks: "LF \<notin> set (str_int i)" "CR \<notin> set (str_int i)"
  using str_nat_no_breaks by (auto simp: str_int_def LF_def CR_def)

lemma edge_line_body: "edge_line fmt e = edge_body fmt e @ [LF]"
  by (cases e) (simp add: edge_line_def edge_body_def)

lemma edge_body_no_breaks:
  assumes "clean_edge fmt parse e"
  shows "LF \<notin> set (edge_body fmt e)" "CR \<notin> set (edge_body fmt e)"
  using assms
  by (cases e; simp add: clean_edge_def clean_id_def clean_weight_def edge_body_def LF_def CR_def)+

lemma edge_body_strip:
  assumes "clean_edge fmt parse e"
  shows "strip (edge_body fmt e @ [LF]) = edge_body fmt e"
proof -
  obtain s t w where e: "e = (s, t, w)" by (cases e)
  let ?x = "edge_body fmt e"
  have ne: "?x \<noteq> []" by (simp add: e edge_body_def)
  have h: "\<not> is_space (hd ?x)"
    using assms by (cases s) (simp_all add: e edge_body_def clean_edge_def clean_id_def not_space_comma)
  have l: "\<not> is_space (last ?x)"
    using assms
    by (cases "fmt w = []") (simp_all add: e edge_body_def clean_edge_def clean_weight_def not_space_comma)
  from ne h l show ?thesis by (rule strip_line)
qed

lemma edge_body_split:
  assumes "clean_edge fmt parse e" and "e = (s, t, w)"
  shows "split_on CHR '','' (edge_body fmt e) = [s, t, fmt w]"
proof -
  from assms have s: "CHR '','' \<notin> set s" and t: "CHR '','' \<notin> set t"
    and w: "CHR '','' \<notin> set (fmt w)"
    by (simp_all add: clean_edge_def clean_id_def clean_weight_def)
  have "split_on CHR '','' (s @ CHR '','' # t @ CHR '','' # fmt w)
      = s # split_on CHR '','' (t @ CHR '','' # fmt w)"
    by (rule split_on_field [OF s])
  also have "split_on CHR '','' (t @ CHR '','' # fmt w) = t # split_on CHR '','' (fmt w)"
    by (rule split_on_field [OF t])
  also have "split_on CHR '','' (fmt w) = [fmt w]"
    by (rule split_on_last [OF w])
  finally show ?thesis by (simp add: assms(2) edge_body_def)
qed

lemma load_edges_edge_lines:
  "\<forall>e\<in>set es. clean_edge fmt parse e
     \<Longrightarrow> load_edges parse g0 (map (edge_line fmt) es) = Inr (add_edges es g0)"
proof (induction es arbitrary: g0)
  case Nil
  then show ?case by (simp add: add_edges_def)
next
  case (Cons e es)
  obtain s t w where e: "e = (s, t, w)" by (cases e)
  from Cons.prems have ce: "clean_edge fmt parse e" by simp
  have st: "strip (edge_line fmt e) = edge_body fmt e"
    by (simp only: edge_line_body edge_body_strip [OF ce])
  have ne: "edge_body fmt e \<noteq> []" by (simp add: e edge_body_def)
  have sp: "split_on CHR '','' (edge_body fmt e) = [s, t, fmt w]"
    by (rule edge_body_split [OF ce e])
  have pw: "parse (fmt w) = Some w"
    using ce by (simp add: e clean_edge_def clean_weight_def)
  have "load_edges parse g0 (map (edge_line fmt) (e # es))
      = load_edges parse (add_edge g0 s t w) (map (edge_line fmt) es)"
    by (simp add: st ne sp pw Let_def)
  also have "\<dots> = Inr (add_edges es (add_edge g0 s t w))"
    using Cons.prems by (intro Cons.IH) simp
  finally show ?case by (simp add: add_edges_def e)
qed

lemma header_directed:
  "split_on CHR '':'' (strip (header_line True @ [LF])) = [''directed'', ''True'']"
  "split_on CHR '':'' (strip (header_line False @ [LF])) = [''directed'', ''False'']"
  by code_simp+

lemma header_no_breaks:
  "LF \<notin> set (header_line d)" "CR \<notin> set (header_line d)"
  "LF \<notin> set (nodes_line n)" "CR \<notin> set (nodes_line n)"
  "LF \<notin> set (edges_line i)" "CR \<notin> set (edges_line i)"
proof -
  show "LF \<notin> set (header_line d)" "CR \<notin> set (header_line d)"
    by (simp_all add: header_line_def LF_def CR_def)
  have "LF \<notin> set ''nodes:''" "CR \<notin> set ''nodes:''" "LF \<notin> set ''edges:''" "CR \<notin> set ''edges:''"
    by (simp_all add: LF_def CR_def)
  then show "LF \<notin> set (nodes_line n)" "CR \<notin> set (nodes_line n)"
    "LF \<notin> set (edges_line i)" "CR \<notin> set (edges_line i)"
    using str_nat_no_breaks [of n] str_int_no_breaks [of i]
    by (simp_all only: nodes_line_def edges_line_def set_append Un_iff simp_thms not_False_eq_True)
qed

lemma save_to_file_lines:
  "save_to_file fmt g =
     concat (map (\<lambda>l. l @ [LF])
       (header_line (directed g)
        # nodes_line (length (adjacency_list g))
        # edges_line (edge_count g)
        # map (edge_body fmt) (get_edges g)))"
proof -
  have "concat (map (edge_line fmt) es) = concat (map (\<lambda>l. l @ [LF]) (map (edge_body fmt) es))" for es
    by (induction es) (simp_all add: edge_line_body)
  then show ?thesis by (simp add: save_to_file_def header_line_def nodes_line_def edges_line_def)
qed

lemma readlines_save_to_file:
  assumes "\<forall>e\<in>set (get_edges g). clean_edge fmt parse e"
  shows "readlines (save_to_file fmt g) =
     (header_line (directed g) @ [LF])
     # (nodes_line (length (adjacency_list g)) @ [LF])
     # (edges_line (edge_count g) @ [LF])
     # map (edge_line fmt) (get_edges g)"
proof -
  let ?ls = "header_line (directed g)
        # nodes_line (length (adjacency_list g))
        # edges_line (edge_count g)
        # map (edge_body fmt) (get_edges g)"
  have lf: "\<forall>l\<in>set ?ls. LF \<notin> set l"
    using assms edge_body_no_breaks(1) [of fmt parse]
    by (auto simp: header_no_breaks)
  have cr: "\<forall>l\<in>set ?ls. CR \<notin> set l"
    using assms edge_body_no_breaks(2) [of fmt parse]
    by (auto simp: header_no_breaks)
  have "CR \<notin> set (concat (map (\<lambda>l. l @ [LF]) ?ls))"
  proof -
    have "CR \<noteq> LF" by (simp add: CR_def LF_def)
    with cr show ?thesis by (simp only: set_concat set_map) auto
  qed
  then have "universal_newlines (save_to_file fmt g) = save_to_file fmt g"
    unfolding save_to_file_lines by (rule universal_newlines_no_CR)
  then have "readlines (save_to_file fmt g) = map (\<lambda>l. l @ [LF]) ?ls"
    unfolding readlines_def by (simp only: save_to_file_lines split_lines_concat [OF lf])
  then show ?thesis by (simp add: edge_line_body [abs_def])
qed

lemma load_save:
  assumes "\<forall>e\<in>set (get_edges g). clean_edge fmt parse e"
  shows "load_from_file parse (save_to_file fmt g)
       = Inr (add_edges (get_edges g) (new_graph (directed g)))"
proof -
  have d: "parse_directed (readlines (save_to_file fmt g)) = Inr (directed g)"
    unfolding readlines_save_to_file [OF assms]
    by (cases "directed g") (simp_all add: parse_directed_def header_directed Let_def)
  have l: "drop 3 (readlines (save_to_file fmt g)) = map (edge_line fmt) (get_edges g)"
    unfolding readlines_save_to_file [OF assms] by simp
  show ?thesis
    by (simp add: load_from_file_def Let_def d l load_edges_edge_lines [OF assms])
qed

lemma add_edges_Cons: "add_edges ((s, t, w) # es) g0 = add_edges es (add_edge g0 s t w)"
  by (simp add: add_edges_def)

lemma add_edges_directed: "directed (add_edges es g0) = directed g0"
proof (induction es arbitrary: g0)
  case Nil
  then show ?case by (simp add: add_edges_def)
next
  case (Cons e es)
  obtain s t w where e: "e = (s, t, w)" by (cases e)
  show ?case unfolding e add_edges_Cons by (simp add: Cons.IH)
qed

lemma add_edges_contains:
  "dict_contains (adjacency_list (add_edges es g0)) n
     \<longleftrightarrow> n \<in> fst ` set es \<union> (fst \<circ> snd) ` set es
         \<or> dict_contains (adjacency_list g0) n"
proof (induction es arbitrary: g0)
  case Nil
  then show ?case by (simp add: add_edges_def)
next
  case (Cons e es)
  obtain s t w where e: "e = (s, t, w)" by (cases e)
  show ?case unfolding e add_edges_Cons Cons.IH add_edge_contains by auto
qed

lemma add_edges_weight:
  assumes cons: "\<forall>(s, t, w)\<in>set es. E s t = Some w"
    and sym: "\<not> directed g0 \<longrightarrow> (\<forall>a b. E a b = E b a)"
  shows "edge_weight (add_edges es g0) a b =
     (if (\<exists>w. (a, b, w) \<in> set es) \<or> (\<not> directed g0 \<and> (\<exists>w. (b, a, w) \<in> set es))
      then E a b else edge_weight g0 a b)"
  using cons sym
proof (induction es arbitrary: g0)
  case Nil
  then show ?case by (simp add: add_edges_def)
next
  case (Cons e es)
  obtain s t w where e: "e = (s, t, w)" by (cases e)
  let ?g1 = "add_edge g0 s t w"
  let ?cov = "\<lambda>xs. (\<exists>w. (a, b, w) \<in> set xs) \<or> (\<not> directed g0 \<and> (\<exists>w. (b, a, w) \<in> set xs))"
  from Cons.prems(1) have Est: "E s t = Some w" and rest: "\<forall>(s, t, w)\<in>set es. E s t = Some w"
    by (simp_all add: e)
  have d1: "directed ?g1 = directed g0" by simp
  have ih: "edge_weight (add_edges es ?g1) a b
      = (if ?cov es then E a b else edge_weight ?g1 a b)"
    using Cons.IH [of ?g1, OF rest] Cons.prems(2) unfolding d1 by blast
  have hit: "edge_weight ?g1 a b = E a b"
    if "(a = s \<and> b = t) \<or> (\<not> directed g0 \<and> a = t \<and> b = s)"
  proof -
    have "edge_weight ?g1 a b = Some w"
      unfolding add_edge_weight using that by (cases "s = t") auto
    moreover have "E a b = Some w"
      using that Est Cons.prems(2) by metis
    ultimately show ?thesis by simp
  qed
  have miss: "edge_weight ?g1 a b = edge_weight g0 a b"
    if "\<not> ((a = s \<and> b = t) \<or> (\<not> directed g0 \<and> a = t \<and> b = s))"
    unfolding add_edge_weight using that by (cases "s = t") auto
  show ?case
  proof (cases "?cov es")
    case True
    then have c1: "?cov ((s, t, w) # es)" by auto
    show ?thesis unfolding e add_edges_Cons by (simp only: ih if_P [OF True] if_P [OF c1])
  next
    case nc: False
    show ?thesis
    proof (cases "(a = s \<and> b = t) \<or> (\<not> directed g0 \<and> a = t \<and> b = s)")
      case True
      then have c1: "?cov ((s, t, w) # es)" by auto
      show ?thesis unfolding e add_edges_Cons
        by (simp only: ih if_not_P [OF nc] if_P [OF c1] hit [OF True])
    next
      case False
      with nc have c1: "\<not> ?cov ((s, t, w) # es)" by auto
      show ?thesis unfolding e add_edges_Cons
        by (simp only: ih if_not_P [OF nc] if_not_P [OF c1] miss [OF False])
    qed
  qed
qed

lemma get_edges_iff:
  "(s, t, w) \<in> set (get_edges g) \<longleftrightarrow> (\<exists>nb. (s, nb) \<in> set (adjacency_list g) \<and> (t, w) \<in> set nb)"
  by (auto simp: get_edges_def)

lemma get_edges_edge_weight:
  assumes "store_inv g"
  shows "(s, t, w) \<in> set (get_edges g) \<longleftrightarrow> edge_weight g s t = Some w"
proof -
  from assms have d: "distinct (map fst (adjacency_list g))"
    and dn: "\<And>nb. nb \<in> snd ` set (adjacency_list g) \<Longrightarrow> distinct (map fst nb)"
    by (auto simp: store_inv_def dict_keys_def)
  show ?thesis
  proof
    assume "(s, t, w) \<in> set (get_edges g)"
    then obtain nb where nb: "(s, nb) \<in> set (adjacency_list g)" "(t, w) \<in> set nb"
      unfolding get_edges_iff by blast
    from nb(1) d have m: "map_of (adjacency_list g) s = Some nb" by simp
    from nb(1) have "nb \<in> snd ` set (adjacency_list g)" by force
    then have "distinct (map fst nb)" by (rule dn)
    with nb(2) have "map_of nb t = Some w" by simp
    with m show "edge_weight g s t = Some w"
      by (simp add: edge_weight_def dict_get_or_empty_def)
  next
    assume a: "edge_weight g s t = Some w"
    show "(s, t, w) \<in> set (get_edges g)"
    proof (cases "map_of (adjacency_list g) s")
      case None
      with a show ?thesis by (simp add: edge_weight_def dict_get_or_empty_def)
    next
      case (Some nb)
      with a have "map_of nb t = Some w" by (simp add: edge_weight_def dict_get_or_empty_def)
      then have "(t, w) \<in> set nb" by (rule map_of_SomeD)
      moreover from Some have "(s, nb) \<in> set (adjacency_list g)" by (rule map_of_SomeD)
      ultimately show ?thesis unfolding get_edges_iff by blast
    qed
  qed
qed

lemma add_edges_get_edges_weight:
  assumes "graph_inv g"
  shows "edge_weight (add_edges (get_edges g) (new_graph (directed g))) a b = edge_weight g a b"
proof -
  from assms have st: "store_inv g" by (simp add: graph_inv_store)
  have cons: "\<forall>(s, t, w)\<in>set (get_edges g). edge_weight g s t = Some w"
    using get_edges_edge_weight [OF st] by auto
  have sym: "\<not> directed (new_graph (directed g)) \<longrightarrow> (\<forall>a b. edge_weight g a b = edge_weight g b a)"
    using assms by (simp add: graph_inv_store new_graph_def)
  have none: "edge_weight (new_graph (directed g)) a b = None"
    by (simp add: edge_weight_def new_graph_def dict_get_or_empty_def)
  show ?thesis
  proof (cases "\<exists>w. (a, b, w) \<in> set (get_edges g)")
    case True
    then show ?thesis unfolding add_edges_weight [OF cons sym] by simp
  next
    case False
    then have "edge_weight g a b = None"
      using get_edges_edge_weight [OF st, of a b] by (cases "edge_weight g a b") auto
    then show ?thesis unfolding add_edges_weight [OF cons sym] none by simp
  qed
qed

lemma drop_edge_contains:
  "dict_contains (adjacency_list (drop_edge g s t)) m \<longleftrightarrow> m = s \<or> dict_contains (adjacency_list g) m"
  by (auto simp: drop_edge_adj dict_contains_def keys_dict_set)

lemma closed_new_graph: "closed_inv (new_graph d)"
  by (simp add: closed_inv_def edge_weight_def new_graph_def dict_get_or_empty_def)

lemma closed_add_node: "closed_inv g \<Longrightarrow> closed_inv (add_node g n)"
  by (simp add: closed_inv_def add_node_contains)

lemma closed_add_edge:
  assumes "closed_inv g"
  shows "closed_inv (add_edge g s t w)"
  unfolding closed_inv_def
proof (intro allI impI)
  fix a b assume e: "edge_weight (add_edge g s t w) a b \<noteq> None"
  show "dict_contains (adjacency_list (add_edge g s t w)) b"
  proof (cases "(a = s \<and> b = t) \<or> (\<not> directed g \<and> s \<noteq> t \<and> a = t \<and> b = s)")
    case True
    then have "b = s \<or> b = t" by blast
    then show ?thesis unfolding add_edge_contains by blast
  next
    case False
    then have "edge_weight (add_edge g s t w) a b = edge_weight g a b"
      unfolding add_edge_weight by (rule if_not_P)
    with e have "edge_weight g a b \<noteq> None" by simp
    with assms have "dict_contains (adjacency_list g) b" unfolding closed_inv_def by blast
    then show ?thesis unfolding add_edge_contains by blast
  qed
qed

lemma closed_drop_edge:
  assumes st: "store_inv g" and cl: "closed_inv g"
  shows "closed_inv (drop_edge g s t)"
  unfolding closed_inv_def
proof (intro allI impI)
  fix a b assume e: "edge_weight (drop_edge g s t) a b \<noteq> None"
  have "edge_weight g a b \<noteq> None"
  proof (cases "a = s \<and> b = t")
    case True
    then have "edge_weight (drop_edge g s t) a b = None"
      unfolding drop_edge_weight [OF st] by (rule if_P)
    with e show ?thesis by simp
  next
    case False
    then have "edge_weight (drop_edge g s t) a b = edge_weight g a b"
      unfolding drop_edge_weight [OF st] by (rule if_not_P)
    with e show ?thesis by simp
  qed
  with cl have "dict_contains (adjacency_list g) b" unfolding closed_inv_def by blast
  then show "dict_contains (adjacency_list (drop_edge g s t)) b"
    unfolding drop_edge_contains by blast
qed

lemma closed_remove_edge:
  assumes inv: "graph_inv g" and cl: "closed_inv g" and r: "remove_edge g s t = Inr (ok, g')"
  shows "closed_inv g'"
proof -
  from inv have st: "store_inv g" by (simp add: graph_inv_store)
  show ?thesis
  proof (cases "edge_weight g s t = None")
    case True
    with r have "g' = g" unfolding remove_edge_drop_edge by simp
    with cl show ?thesis by simp
  next
    case e: False
    have st1: "store_inv (drop_edge g s t)" by (rule drop_edge_store_inv [OF st e])
    have cl1: "closed_inv (drop_edge g s t)" by (rule closed_drop_edge [OF st cl])
    have cl2: "closed_inv (drop_edge (drop_edge g s t) t s)" by (rule closed_drop_edge [OF st1 cl1])
    from r e have "g' = drop_edge g s t \<or> g' = drop_edge (drop_edge g s t) t s"
      unfolding remove_edge_drop_edge Let_def by (auto split: if_splits)
    with cl1 cl2 show ?thesis by blast
  qed
qed

lemma apply_op_closed:
  assumes "graph_inv g" and "closed_inv g" and "apply_op g x = Inr g'"
  shows "closed_inv g'"
proof (cases x)
  case (AddNode n)
  with assms show ?thesis by (auto simp: closed_add_node)
next
  case (AddEdge s t w)
  with assms show ?thesis by (auto simp: closed_add_edge)
next
  case (RemoveEdge s t)
  with assms(3) obtain ok where "remove_edge g s t = Inr (ok, g')"
    by (auto split: sum.splits prod.splits)
  then show ?thesis by (rule closed_remove_edge [OF assms(1,2)])
qed

lemma apply_ops_closed:
  "graph_inv g \<Longrightarrow> closed_inv g \<Longrightarrow> apply_ops g xs = Inr g' \<Longrightarrow> closed_inv g'"
proof (induction xs arbitrary: g)
  case Nil
  then show ?case by simp
next
  case (Cons x xs)
  from apply_op_inv [OF Cons.prems(1), of x] obtain g1
    where 1: "apply_op g x = Inr g1" "graph_inv g1" by blast
  have c1: "closed_inv g1" by (rule apply_op_closed [OF Cons.prems(1,2) 1(1)])
  from Cons.prems(3) 1(1) have "apply_ops g1 xs = Inr g'" by simp
  then show ?case by (rule Cons.IH [OF 1(2) c1])
qed

lemma reachable_invariants:
  assumes "apply_ops (new_graph d) ops = Inr g"
  shows "graph_inv g" "closed_inv g"
proof -
  from apply_ops_inv [OF new_graph_inv, of d ops] assms show "graph_inv g" by auto
  from apply_ops_closed [OF new_graph_inv closed_new_graph assms] show "closed_inv g" .
qed

lemma edge_endpoints_nodes:
  assumes "graph_inv g" and "closed_inv g"
  shows "edge_endpoints g \<subseteq> set (get_nodes g)"
proof
  fix n assume "n \<in> edge_endpoints g"
  then obtain s t w where e: "(s, t, w) \<in> set (get_edges g)" and n: "n = s \<or> n = t"
    unfolding edge_endpoints_def by force
  from assms(1) have st: "store_inv g" by (simp add: graph_inv_store)
  from e have w: "edge_weight g s t = Some w" by (simp add: get_edges_edge_weight [OF st])
  then have ne: "edge_weight g s t \<noteq> None" by simp
  then have "dict_contains (adjacency_list g) s" using edge_weight_present [of g s t] by blast
  moreover from ne assms(2) have "dict_contains (adjacency_list g) t"
    unfolding closed_inv_def by blast
  ultimately show "n \<in> set (get_nodes g)"
    using n by (auto simp: get_nodes_def dict_contains_def)
qed

text \<open>
  Claim C6, amended.  Let \<open>g\<close> be a graph built by the operations of the store in which
  every node is an endpoint of some edge, no node identifier contains a comma or a line
  end or begins with white space, and the text of every weight is free of commas and
  line ends, does not end with white space and parses back to the weight.  Then loading
  the text written by \<open>save_to_file\<close> succeeds and yields a graph with the same
  directedness flag, the same set of nodes and the same weight for every pair of nodes.
\<close>

theorem load_save_round_trip:
  assumes reach: "apply_ops (new_graph d) ops = Inr g"
    and ids: "\<forall>n\<in>set (get_nodes g). clean_id n"
    and weights: "\<forall>(s, t, w)\<in>set (get_edges g). clean_weight fmt parse w"
    and incident: "set (get_nodes g) \<subseteq> edge_endpoints g"
  shows "\<exists>g'. load_from_file parse (save_to_file fmt g) = Inr g'
           \<and> directed g' = directed g
           \<and> set (get_nodes g') = set (get_nodes g)
           \<and> (\<forall>s t. edge_weight g' s t = edge_weight g s t)"
proof -
  note inv = reachable_invariants [OF reach]
  let ?g' = "add_edges (get_edges g) (new_graph (directed g))"
  have ends: "edge_endpoints g = set (get_nodes g)"
    using edge_endpoints_nodes [OF inv] incident by blast
  have clean: "\<forall>e\<in>set (get_edges g). clean_edge fmt parse e"
  proof
    fix e assume e: "e \<in> set (get_edges g)"
    obtain s t w where stw: "e = (s, t, w)" by (cases e)
    with e have "s \<in> edge_endpoints g" "t \<in> edge_endpoints g"
      unfolding edge_endpoints_def by force+
    with ids ends have "clean_id s" "clean_id t" by auto
    moreover from weights e stw have "clean_weight fmt parse w" by auto
    ultimately show "clean_edge fmt parse e" by (simp add: clean_edge_def stw)
  qed
  have l: "load_from_file parse (save_to_file fmt g) = Inr ?g'" by (rule load_save [OF clean])
  have d: "directed ?g' = directed g" by (simp add: add_edges_directed new_graph_def)
  have "dict_contains (adjacency_list ?g') n \<longleftrightarrow> n \<in> edge_endpoints g" for n
    unfolding add_edges_contains edge_endpoints_def
    by (simp add: new_graph_def dict_contains_def dict_keys_def)
  then have n: "set (get_nodes ?g') = set (get_nodes g)"
    unfolding ends by (auto simp: get_nodes_def dict_contains_def)
  have w: "\<forall>s t. edge_weight ?g' s t = edge_weight g s t"
    by (simp add: add_edges_get_edges_weight [OF inv(1)])
  from l d n w show ?thesis by blast
qed

theorem load_save_round_trip_witness:
  "\<exists>g'. load_from_file unit_parse
           (save_to_file unit_fmt (add_edge (add_edge (new_graph False) ''a'' ''b'' 1) ''c'' ''c'' 1))
         = Inr g'
       \<and> directed g' = directed (add_edge (add_edge (new_graph False) ''a'' ''b'' 1) ''c'' ''c'' 1)
       \<and> set (get_nodes g')
         = set (get_nodes (add_edge (add_edge (new_graph False) ''a'' ''b'' 1) ''c'' ''c'' 1))
       \<and> (\<forall>s t. edge_weight g' s t
                = edge_weight (add_edge (add_edge (new_graph False) ''a'' ''b'' 1) ''c'' ''c'' 1) s t)"
proof -
  let ?G = "add_edge (add_edge (new_graph False) ''a'' ''b'' 1) ''c'' ''c'' 1"
  have r: "apply_ops (new_graph False) [AddEdge ''a'' ''b'' 1, AddEdge ''c'' ''c'' 1] = Inr ?G"
    by simp
  have ids: "\<forall>n\<in>set (get_nodes ?G). clean_id n" by code_simp
  have ws: "\<forall>(s, t, w)\<in>set (get_edges ?G). clean_weight unit_fmt unit_parse w" by code_simp
  have inc: "set (get_nodes ?G) \<subseteq> edge_endpoints ?G" by code_simp
  from load_save_round_trip [OF r ids ws inc] show ?thesis .
qed

text \<open>
  Claim C6, as stated (for every graph the loaded graph is equivalent to the saved one),
  fails.  The format has a line for each edge and none for a node: a graph whose only
  node \<open>a\<close> has no edge is loaded as the empty graph.  The fields of a line are neither
  quoted nor escaped: an edge from the node \<open>a,b\<close> is read as an edge from \<open>a\<close> to \<open>b\<close>
  whose weight text \<open>c\<close> is rejected by the float parser, and a node whose
  identifier is a blank followed by \<open>a\<close> comes back as \<open>a\<close>.
\<close>

theorem load_drops_isolated_nodes_and_misreads_ids:
  "load_from_file unit_parse (save_to_file unit_fmt (add_node (new_graph True) ''a''))
     = Inr (new_graph True)
   \<and> get_nodes (add_node (new_graph True) ''a'') = [''a'']
   \<and> get_nodes (new_graph True) = []
   \<and> load_from_file unit_parse (save_to_file unit_fmt (add_edge (new_graph True) ''a,b'' ''c'' 1))
     = Inl ValueError
   \<and> map_sum id get_nodes
       (load_from_file unit_parse (save_to_file unit_fmt (add_edge (new_graph True) '' a'' ''c'' 1)))
     = Inr [''a'', ''c'']
   \<and> get_nodes (add_edge (new_graph True) '' a'' ''c'' 1) = ['' a'', ''c'']"
  by code_simp

end
